theory Spec2Isabelle
  imports
    Complex_Main
    "HOL-Library.Sublist"
    "HOL-Library.Multiset"
    "HOL-Library.Char_ord"
    "HOL-Library.List_Lexorder"
    "HOL-Library.Product_Lexorder"
begin

section \<open>The device table (migrations) and the statements of db.ts\<close>

text \<open>
  The first migration creates \<^verbatim>\<open>devices\<close> with \<^verbatim>\<open>device_id\<close> as primary key and a
  unique \<^verbatim>\<open>fcm_token\<close>; the second adds \<^verbatim>\<open>game_id\<close> and \<^verbatim>\<open>active\<close>; the third turns
  \<^verbatim>\<open>user_id\<close> and \<^verbatim>\<open>game_id\<close> into bigint. The base variant of db.ts runs on the first
  table (user ids are text), the richer variant on the last one (user ids are integers).
  A table is the list of its rows; timestamps are natural numbers.
\<close>

record 'u device_base =
  device_id :: string
  user_id :: "'u option"
  fcm_token :: string
  platform :: "string option"
  app_version :: "string option"
  created_at :: nat
  updated_at :: nat

record 'u device = "'u device_base" +
  game_id :: "int option"
  active :: bool

text \<open>Every statement the code sends to the database, with its parameters.\<close>

datatype 'u stmt =
    Connect
  | Begin
  | DeleteOtherHolder string string
  | Deactivate string
  | InsertOnConflict string
  | Commit
  | Rollback
  | SelectTokensByUser 'u
  | SelectActivePage nat nat
  | SelectActiveCount
  | DeleteByToken "string option"
  | DeleteByIdentifiers string string 'u int

text \<open>
  The driver can raise on any statement (lost connection, a parameter the column type
  refuses): \<open>dbf q = Some msg\<close> says that statement \<open>q\<close> raises \<open>Error(msg)\<close> and has no
  effect.
\<close>

type_synonym 'u faults = "'u stmt \<Rightarrow> string option"

text \<open>
  One connection of the pool: the committed table, and the working copy of the
  transaction it has open, if any. A statement runs on the working copy inside a
  transaction and on the committed table otherwise.
\<close>

record 'r session =
  committed :: "'r list"
  pending :: "'r list option"

definition current :: "'r session \<Rightarrow> 'r list" where
  "current s = (case pending s of Some t \<Rightarrow> t | None \<Rightarrow> committed s)"

definition store :: "'r list \<Rightarrow> 'r session \<Rightarrow> 'r session" where
  "store t s = (case pending s of Some _ \<Rightarrow> s\<lparr>pending := Some t\<rparr> | None \<Rightarrow> s\<lparr>committed := t\<rparr>)"

definition sql_begin :: "'r session \<Rightarrow> 'r session" where
  "sql_begin s = s\<lparr>pending := Some (current s)\<rparr>"

definition sql_commit :: "'r session \<Rightarrow> 'r session" where
  "sql_commit s = \<lparr>committed = current s, pending = None\<rparr>"

definition sql_rollback :: "'r session \<Rightarrow> 'r session" where
  "sql_rollback s = s\<lparr>pending := None\<rparr>"

text \<open>Awaited calls in sequence: the first one that raises ends the block.\<close>

type_synonym ('s, 'a) io = "'s \<Rightarrow> (string + 'a) \<times> 's"

definition andThen :: "('s, 'a) io \<Rightarrow> ('a \<Rightarrow> ('s, 'b) io) \<Rightarrow> ('s, 'b) io" where
  "andThen m f s = (case m s of (Inl e, s') \<Rightarrow> (Inl e, s') | (Inr a, s') \<Rightarrow> f a s')"

definition client_query ::
  "'u faults \<Rightarrow> 'u stmt \<Rightarrow> ('r list \<Rightarrow> string + 'r list \<times> 'a) \<Rightarrow> ('r session, 'a) io" where
  "client_query dbf q f s =
     (case dbf q of
        Some e \<Rightarrow> (Inl e, s)
      | None \<Rightarrow> (case f (current s) of
                   Inl e \<Rightarrow> (Inl e, s)
                 | Inr (t, a) \<Rightarrow> (Inr a, store t s)))"

definition client_begin :: "'u faults \<Rightarrow> ('r session, unit) io" where
  "client_begin dbf s = (case dbf Begin of Some e \<Rightarrow> (Inl e, s) | None \<Rightarrow> (Inr (), sql_begin s))"

definition client_commit :: "'u faults \<Rightarrow> ('r session, unit) io" where
  "client_commit dbf s = (case dbf Commit of Some e \<Rightarrow> (Inl e, s) | None \<Rightarrow> (Inr (), sql_commit s))"

text \<open>\<^verbatim>\<open>x || null\<close> on an optional string: the empty string is falsy too.\<close>

definition or_null :: "string option \<Rightarrow> string option" where
  "or_null x = (case x of None \<Rightarrow> None | Some s \<Rightarrow> if s = [] then None else Some s)"

text \<open>\<^verbatim>\<open>DELETE FROM devices WHERE fcm_token = $1 AND device_id <> $2\<close>\<close>

definition delete_other_holder ::
  "string \<Rightarrow> string \<Rightarrow> ('u, 'z) device_base_scheme list
     \<Rightarrow> string + ('u, 'z) device_base_scheme list \<times> unit" where
  "delete_other_holder fcmToken deviceId tbl =
     Inr (filter (\<lambda>r. \<not> (fcm_token r = fcmToken \<and> device_id r \<noteq> deviceId)) tbl, ())"

text \<open>\<^verbatim>\<open>UPDATE devices SET active = false WHERE device_id = $1\<close>\<close>

definition deactivate :: "string \<Rightarrow> 'u device list \<Rightarrow> string + 'u device list \<times> unit" where
  "deactivate deviceId tbl =
     Inr (map (\<lambda>r. if device_id r = deviceId then r\<lparr>active := False\<rparr> else r) tbl, ())"

text \<open>
  \<^verbatim>\<open>INSERT ... VALUES new ON CONFLICT (device_id) DO UPDATE SET ... RETURNING ...\<close>:
  a row with the key of \<open>new\<close> is updated by \<open>upd\<close>, otherwise \<open>new\<close> is appended. The
  unique index on \<^verbatim>\<open>fcm_token\<close> refuses the statement when another device holds the
  token. The second component is the rows of the RETURNING clause. The list keeps the
  updated row where the old one stood; the database promises no order for a SELECT
  without ORDER BY, so what is proved of the rows after an upsert is stated on their set
  or multiset, never on their positions.
\<close>

definition insert_on_conflict ::
  "('u, 'z) device_base_scheme
     \<Rightarrow> (('u, 'z) device_base_scheme \<Rightarrow> ('u, 'z) device_base_scheme)
     \<Rightarrow> ('u, 'z) device_base_scheme list
     \<Rightarrow> string + ('u, 'z) device_base_scheme list \<times> ('u, 'z) device_base_scheme list" where
  "insert_on_conflict new upd tbl =
     (if \<exists>r \<in> set tbl. fcm_token r = fcm_token new \<and> device_id r \<noteq> device_id new
      then Inl ''duplicate key value violates unique constraint''
      else
        let tbl' = (if \<exists>r \<in> set tbl. device_id r = device_id new
                    then map (\<lambda>r. if device_id r = device_id new then upd r else r) tbl
                    else tbl @ [new])
        in Inr (tbl', filter (\<lambda>r. device_id r = device_id new) tbl'))"

text \<open>The object built from \<^verbatim>\<open>rows[0]\<close>; reading a field of \<^verbatim>\<open>undefined\<close> raises.\<close>

definition first_row ::
  "('u, 'z) device_base_scheme list \<Rightarrow> ('s, string \<times> 'u option \<times> string) io" where
  "first_row rows s =
     (case rows of
        [] \<Rightarrow> (Inl ''Cannot read properties of undefined'', s)
      | r # _ \<Rightarrow> (Inr (device_id r, user_id r, fcm_token r), s))"

subsection \<open>upsertDevice, base variant (db.ts, first version)\<close>

definition upsertDevice_base_try ::
  "string faults \<Rightarrow> nat \<Rightarrow> string \<Rightarrow> string option \<Rightarrow> string \<Rightarrow> string option \<Rightarrow> string option
     \<Rightarrow> (string device_base session, string \<times> string option \<times> string) io" where
  "upsertDevice_base_try dbf now deviceId userId fcmToken platf appVersion =
     andThen (client_begin dbf) (\<lambda>_.
     andThen (client_query dbf (DeleteOtherHolder fcmToken deviceId)
                (delete_other_holder fcmToken deviceId)) (\<lambda>_.
     andThen (client_query dbf (InsertOnConflict deviceId)
                (insert_on_conflict
                   \<lparr>device_id = deviceId, user_id = or_null userId, fcm_token = fcmToken,
                    platform = or_null platf, app_version = or_null appVersion,
                    created_at = now, updated_at = now\<rparr>
                   (\<lambda>r. r\<lparr>user_id := or_null userId, fcm_token := fcmToken,
                          platform := or_null platf, app_version := or_null appVersion,
                          updated_at := now\<rparr>))) (\<lambda>rows.
     andThen (client_commit dbf) (\<lambda>_.
     first_row rows))))"

text \<open>
  \<^verbatim>\<open>pool.connect()\<close> is outside the \<^verbatim>\<open>try\<close>. The \<^verbatim>\<open>catch\<close> sends ROLLBACK and rethrows;
  a ROLLBACK that raises itself means the connection is gone, and the server discards
  the open transaction all the same.
\<close>

definition upsertDevice_base ::
  "string faults \<Rightarrow> nat \<Rightarrow> string \<Rightarrow> string option \<Rightarrow> string \<Rightarrow> string option \<Rightarrow> string option
     \<Rightarrow> (string device_base session, string \<times> string option \<times> string) io" where
  "upsertDevice_base dbf now deviceId userId fcmToken platf appVersion s =
     (case dbf Connect of
        Some e \<Rightarrow> (Inl e, s)
      | None \<Rightarrow>
          (case upsertDevice_base_try dbf now deviceId userId fcmToken platf appVersion s of
             (Inr res, s') \<Rightarrow> (Inr res, s')
           | (Inl err, s') \<Rightarrow>
               (case dbf Rollback of
                  Some e' \<Rightarrow> (Inl e', sql_rollback s')
                | None \<Rightarrow> (Inl err, sql_rollback s'))))"

subsection \<open>upsertDevice, richer variant (db.ts, second version)\<close>

definition upsertDevice_try ::
  "int faults \<Rightarrow> nat \<Rightarrow> string \<Rightarrow> int option \<Rightarrow> int option \<Rightarrow> string \<Rightarrow> string option
     \<Rightarrow> string option \<Rightarrow> (int device session, string \<times> int option \<times> string) io" where
  "upsertDevice_try dbf now deviceId userId gameId fcmToken platf appVersion =
     andThen (client_begin dbf) (\<lambda>_.
     andThen (client_query dbf (DeleteOtherHolder fcmToken deviceId)
                (delete_other_holder fcmToken deviceId)) (\<lambda>_.
     andThen (client_query dbf (Deactivate deviceId) (deactivate deviceId)) (\<lambda>_.
     andThen (client_query dbf (InsertOnConflict deviceId)
                (insert_on_conflict
                   \<lparr>device_id = deviceId, user_id = userId, fcm_token = fcmToken,
                    platform = or_null platf, app_version = or_null appVersion,
                    created_at = now, updated_at = now, game_id = gameId, active = True\<rparr>
                   (\<lambda>r. r\<lparr>user_id := userId, game_id := gameId, fcm_token := fcmToken,
                          platform := or_null platf, app_version := or_null appVersion,
                          active := True, updated_at := now\<rparr>))) (\<lambda>rows.
     andThen (client_commit dbf) (\<lambda>_.
     first_row rows)))))"

definition upsertDevice ::
  "int faults \<Rightarrow> nat \<Rightarrow> string \<Rightarrow> int option \<Rightarrow> int option \<Rightarrow> string \<Rightarrow> string option
     \<Rightarrow> string option \<Rightarrow> (int device session, string \<times> int option \<times> string) io" where
  "upsertDevice dbf now deviceId userId gameId fcmToken platf appVersion s =
     (case dbf Connect of
        Some e \<Rightarrow> (Inl e, s)
      | None \<Rightarrow>
          (case upsertDevice_try dbf now deviceId userId gameId fcmToken platf appVersion s of
             (Inr res, s') \<Rightarrow> (Inr res, s')
           | (Inl err, s') \<Rightarrow>
               (case dbf Rollback of
                  Some e' \<Rightarrow> (Inl e', sql_rollback s')
                | None \<Rightarrow> (Inl err, sql_rollback s'))))"

subsection \<open>The statements sent through the pool (no transaction)\<close>

text \<open>\<^verbatim>\<open>SELECT fcm_token FROM devices WHERE user_id = $1\<close> (base variant)\<close>

definition getTokensByUserId_base ::
  "string faults \<Rightarrow> string \<Rightarrow> (string, 'z) device_base_scheme list \<Rightarrow> string + string list" where
  "getTokensByUserId_base dbf userId tbl =
     (case dbf (SelectTokensByUser userId) of
        Some e \<Rightarrow> Inl e
      | None \<Rightarrow> Inr (map fcm_token (filter (\<lambda>r. user_id r = Some userId) tbl)))"

text \<open>\<^verbatim>\<open>SELECT fcm_token FROM devices WHERE user_id = $1 AND active = true\<close>\<close>

definition getTokensByUserId :: "int faults \<Rightarrow> int \<Rightarrow> int device list \<Rightarrow> string + string list" where
  "getTokensByUserId dbf userId tbl =
     (case dbf (SelectTokensByUser userId) of
        Some e \<Rightarrow> Inl e
      | None \<Rightarrow> Inr (map fcm_token (filter (\<lambda>r. user_id r = Some userId \<and> active r) tbl)))"

text \<open>
  \<^verbatim>\<open>ORDER BY updated_at DESC, device_id ASC\<close>: a stable sort on the pair of the negated
  timestamp and the device id (strings compared character by character).
\<close>

definition active_ordered :: "'u device list \<Rightarrow> 'u device list" where
  "active_ordered tbl =
     sort_key (\<lambda>r. (- int (updated_at r), device_id r)) (filter active tbl)"

definition getAllActiveTokensPage ::
  "'u faults \<Rightarrow> nat \<Rightarrow> nat \<Rightarrow> 'u device list \<Rightarrow> string + string list" where
  "getAllActiveTokensPage dbf limit offset tbl =
     (case dbf (SelectActivePage limit offset) of
        Some e \<Rightarrow> Inl e
      | None \<Rightarrow> Inr (map fcm_token (take limit (drop offset (active_ordered tbl)))))"

definition getActiveTokensCount :: "'u faults \<Rightarrow> 'u device list \<Rightarrow> string + nat" where
  "getActiveTokensCount dbf tbl =
     (case dbf SelectActiveCount of
        Some e \<Rightarrow> Inl e
      | None \<Rightarrow> Inr (length (filter active tbl)))"

text \<open>
  \<^verbatim>\<open>DELETE FROM devices WHERE fcm_token = $1\<close>. The parameter is \<open>None\<close> when the caller
  passes \<^verbatim>\<open>undefined\<close>: the driver sends NULL, and \<^verbatim>\<open>fcm_token = NULL\<close> holds for no row.
\<close>

definition deleteToken ::
  "'u faults \<Rightarrow> string option \<Rightarrow> ('u, 'z) device_base_scheme list
     \<Rightarrow> string + ('u, 'z) device_base_scheme list" where
  "deleteToken dbf token tbl =
     (case dbf (DeleteByToken token) of
        Some e \<Rightarrow> Inl e
      | None \<Rightarrow> Inr (filter (\<lambda>r. Some (fcm_token r) \<noteq> token) tbl))"

text \<open>
  \<^verbatim>\<open>DELETE ... WHERE device_id = $1 AND fcm_token = $2 AND user_id = $3 AND game_id = $4\<close>,
  answering \<^verbatim>\<open>rowCount || 0\<close>.
\<close>

definition matches_identifiers :: "string \<Rightarrow> string \<Rightarrow> int \<Rightarrow> int \<Rightarrow> int device \<Rightarrow> bool" where
  "matches_identifiers deviceId fcmToken userId gameId r \<longleftrightarrow>
     device_id r = deviceId \<and> fcm_token r = fcmToken
       \<and> user_id r = Some userId \<and> game_id r = Some gameId"

definition deleteDeviceByIdentifiers ::
  "int faults \<Rightarrow> string \<Rightarrow> string \<Rightarrow> int \<Rightarrow> int \<Rightarrow> int device list
     \<Rightarrow> string + nat \<times> int device list" where
  "deleteDeviceByIdentifiers dbf deviceId fcmToken userId gameId tbl =
     (case dbf (DeleteByIdentifiers deviceId fcmToken userId gameId) of
        Some e \<Rightarrow> Inl e
      | None \<Rightarrow>
          Inr (length (filter (matches_identifiers deviceId fcmToken userId gameId) tbl),
               filter (\<lambda>r. \<not> matches_identifiers deviceId fcmToken userId gameId r) tbl))"

text \<open>
  The two constraints of the table: \<^verbatim>\<open>device_id\<close> is the primary key and \<^verbatim>\<open>fcm_token\<close>
  is unique.
\<close>

definition registry_inv :: "('u, 'z) device_base_scheme list \<Rightarrow> bool" where
  "registry_inv tbl \<longleftrightarrow> distinct (map device_id tbl) \<and> distinct (map fcm_token tbl)"

section \<open>The push provider and the values of the HTTP surface\<close>

text \<open>
  A message is the object handed to \<^verbatim>\<open>send\<close> and \<^verbatim>\<open>sendEachForMulticast\<close>; its parts are
  objects with string values, a key whose value is \<^verbatim>\<open>undefined\<close> being absent.
\<close>

record message =
  m_notification :: "(string \<times> string) list option"
  m_data :: "(string \<times> string) list option"
  m_android :: "(string \<times> string) list option"

record send_response =
  success :: bool
  error_code :: "string option"
  error_message :: "string option"

record batch_response =
  responses :: "send_response list"
  successCount :: nat
  failureCount :: nat

text \<open>
  The provider has a state of its own (\<open>'p\<close>) and may raise: \<open>Inl msg\<close>. Obtaining the
  client (\<^verbatim>\<open>fcm()\<close>, which raises without credentials) is part of the call.
\<close>

type_synonym 'p multicast = "'p \<Rightarrow> message \<Rightarrow> string list \<Rightarrow> (string + batch_response) \<times> 'p"

type_synonym 'p send_one = "'p \<Rightarrow> message \<Rightarrow> string \<Rightarrow> (string + string) \<times> 'p"

datatype json = JNull | JBool bool | JNum int | JStr string | JDecimal int

text \<open>
  A response is the status and the fields of the JSON body. \<open>JDecimal n\<close> is the string
  of decimal digits the driver returns for a bigint column.
\<close>

type_synonym response = "nat \<times> (string \<times> json) list"

datatype log_line =
    InvalidUserId
  | MissingTitleBody
  | LoadTokensFailed int string
  | NoActiveTokens int
  | Sent int "string option"
  | Failed int "string option" string string

datatype 'u event =
    Query "'u stmt"
  | Multicast message "string list" "string + batch_response"
  | SendOne message string "string + string"
  | ConsoleError log_line
  | ConsoleLog log_line

record ('r, 'p, 'u) world =
  registry :: "'r list"
  provider :: 'p
  events :: "'u event list"

definition emit :: "'u event \<Rightarrow> ('r, 'p, 'u) world \<Rightarrow> ('r, 'p, 'u) world" where
  "emit ev w = w\<lparr>events := events w @ [ev]\<rparr>"

text \<open>\<^verbatim>\<open>sendError\<close> of the richer server, and the two error bodies of the base server.\<close>

definition sendError :: "nat \<Rightarrow> string \<Rightarrow> response" where
  "sendError status msg = (status, [(''ok'', JBool False), (''message'', JStr msg)])"

definition bad_request_base :: "string \<Rightarrow> response" where
  "bad_request_base msg = (400, [(''error'', JStr msg)])"

definition server_error_base :: "string \<Rightarrow> response" where
  "server_error_base msg = (500, [(''ok'', JBool False), (''error'', JStr msg)])"

section \<open>server.ts: chunking and the multicast loop\<close>

definition slice :: "'a list \<Rightarrow> nat \<Rightarrow> nat \<Rightarrow> 'a list" where
  "slice arr i j = take (j - i) (drop i arr)"

text \<open>
  \<^verbatim>\<open>for (let i = 0; i < arr.length; i += size) out.push(arr.slice(i, i + size))\<close>.
  With \<^verbatim>\<open>size = 0\<close> and a non-empty array the loop never ends: the result is \<open>None\<close>.
\<close>

partial_function (option) chunk_from :: "'a list \<Rightarrow> nat \<Rightarrow> nat \<Rightarrow> 'a list list \<Rightarrow> 'a list list option" where
  "chunk_from arr sz i out =
     (if i < length arr then chunk_from arr sz (i + sz) (out @ [slice arr i (i + sz)])
      else Some out)"

definition chunk :: "'a list \<Rightarrow> nat \<Rightarrow> 'a list list option" where
  "chunk arr sz = chunk_from arr sz 0 []"

text \<open>\<^verbatim>\<open>code.includes(s)\<close>\<close>

definition js_includes :: "string \<Rightarrow> string \<Rightarrow> bool" where
  "js_includes code s \<longleftrightarrow> sublist s code"

definition is_dead_code :: "string \<Rightarrow> bool" where
  "is_dead_code code \<longleftrightarrow>
     js_includes code ''registration-token-not-registered''
       \<or> js_includes code ''invalid-registration-token''"

text \<open>\<^verbatim>\<open>part[idx]\<close>: \<^verbatim>\<open>undefined\<close> (\<open>None\<close>) beyond the end.\<close>

definition js_index :: "'a list \<Rightarrow> nat \<Rightarrow> 'a option" where
  "js_index xs i = (if i < length xs then Some (xs ! i) else None)"

text \<open>\<^verbatim>\<open>r.error?.code || ''\<close>\<close>

definition code_of :: "send_response \<Rightarrow> string" where
  "code_of r = (case error_code r of None \<Rightarrow> [] | Some c \<Rightarrow> c)"

text \<open>The tokens one \<^verbatim>\<open>responses.forEach\<close> pushes onto \<^verbatim>\<open>deadTokens\<close>.\<close>

definition dead_of_batch :: "string list \<Rightarrow> send_response list \<Rightarrow> string option list" where
  "dead_of_batch part rs =
     map (\<lambda>(idx, r). js_index part idx)
       (filter (\<lambda>(idx, r). \<not> success r \<and> is_dead_code (code_of r)) (enumerate 0 rs))"

text \<open>
  The \<^verbatim>\<open>for (const part of chunks)\<close> loop of /push/user with its three accumulators
  \<^verbatim>\<open>sent\<close>, \<^verbatim>\<open>failed\<close> and \<^verbatim>\<open>deadTokens\<close>; a provider call that raises ends it.
\<close>

fun multicast_loop ::
  "'p multicast \<Rightarrow> message \<Rightarrow> string list list \<Rightarrow> nat \<times> nat \<times> string option list
     \<Rightarrow> ('r, 'p, 'u) world \<Rightarrow> (string + nat \<times> nat \<times> string option list) \<times> ('r, 'p, 'u) world" where
  "multicast_loop send msg [] acc w = (Inr acc, w)"
| "multicast_loop send msg (part # rest) (sent, failed, deadTokens) w =
     (case send (provider w) msg part of
        (Inl e, p') \<Rightarrow> (Inl e, emit (Multicast msg part (Inl e)) (w\<lparr>provider := p'\<rparr>))
      | (Inr resp, p') \<Rightarrow>
          multicast_loop send msg rest
            (sent + successCount resp, failed + failureCount resp,
             deadTokens @ dead_of_batch part (responses resp))
            (emit (Multicast msg part (Inr resp)) (w\<lparr>provider := p'\<rparr>)))"

text \<open>
  \<^verbatim>\<open>await Promise.all(deadTokens.map((t) => deleteToken(t)))\<close>: every deletion is issued,
  the ones that do not raise take effect, and the call raises when one of them did (the
  model reports the first in the order of the list).
\<close>

fun delete_all ::
  "'u faults \<Rightarrow> string option list \<Rightarrow> (('u, 'z) device_base_scheme, 'p, 'u) world
     \<Rightarrow> string option \<times> (('u, 'z) device_base_scheme, 'p, 'u) world" where
  "delete_all dbf [] w = (None, w)"
| "delete_all dbf (t # ts) w =
     (case deleteToken dbf t (registry w) of
        Inl e \<Rightarrow> (Some e, snd (delete_all dbf ts (emit (Query (DeleteByToken t)) w)))
      | Inr tbl \<Rightarrow> delete_all dbf ts (emit (Query (DeleteByToken t)) (w\<lparr>registry := tbl\<rparr>)))"

text \<open>\<^verbatim>\<open>{ title, body, imageUrl: image || undefined }\<close> (the base server names the key \<^verbatim>\<open>image\<close>)\<close>

definition notification_of :: "string \<Rightarrow> string \<Rightarrow> string \<Rightarrow> string option \<Rightarrow> (string \<times> string) list" where
  "notification_of key title body img =
     [(''title'', title), (''body'', body)]
       @ (case or_null img of None \<Rightarrow> [] | Some i \<Rightarrow> [(key, i)])"

section \<open>server.ts: the handlers\<close>

subsection \<open>POST /devices/register\<close>

text \<open>
  A field of the request body is \<open>None\<close> when it is missing or null. The base server
  tests \<^verbatim>\<open>!deviceId || !fcmToken\<close> (the empty string is refused too); the richer server
  tests each of \<^verbatim>\<open>deviceId\<close>, \<^verbatim>\<open>fcmToken\<close>, \<^verbatim>\<open>userId\<close>, \<^verbatim>\<open>gameId\<close> with \<^verbatim>\<open>== null\<close>.
  The connection taken from the pool has no transaction open.
\<close>

definition register_device_base ::
  "string faults \<Rightarrow> nat \<Rightarrow> string option \<Rightarrow> string option \<Rightarrow> string option \<Rightarrow> string option
     \<Rightarrow> string option \<Rightarrow> string device_base list \<Rightarrow> response \<times> string device_base list" where
  "register_device_base dbf now deviceId userId fcmToken platf appVersion tbl =
     (case (or_null deviceId, or_null fcmToken) of
        (Some d, Some t) \<Rightarrow>
          (case upsertDevice_base dbf now d userId t platf appVersion
                  \<lparr>committed = tbl, pending = None\<rparr> of
             (Inr (rd, ru, rt), s') \<Rightarrow>
               ((200, [(''ok'', JBool True), (''deviceId'', JStr rd),
                       (''userId'', case ru of None \<Rightarrow> JNull | Some x \<Rightarrow> JStr x),
                       (''fcmToken'', JStr rt)]), committed s')
           | (Inl e, s') \<Rightarrow> (server_error_base e, committed s'))
      | _ \<Rightarrow> (bad_request_base ''deviceId and fcmToken are required'', tbl))"

definition register_device ::
  "int faults \<Rightarrow> nat \<Rightarrow> string option \<Rightarrow> int option \<Rightarrow> int option \<Rightarrow> string option
     \<Rightarrow> string option \<Rightarrow> string option \<Rightarrow> int device list \<Rightarrow> response \<times> int device list" where
  "register_device dbf now deviceId userId gameId fcmToken platf appVersion tbl =
     (case deviceId of
        None \<Rightarrow> (sendError 400 ''deviceId required'', tbl)
      | Some d \<Rightarrow>
     (case fcmToken of
        None \<Rightarrow> (sendError 400 ''fcmToken are required'', tbl)
      | Some t \<Rightarrow>
     (case userId of
        None \<Rightarrow> (sendError 400 ''userId are required'', tbl)
      | Some u \<Rightarrow>
     (case gameId of
        None \<Rightarrow> (sendError 400 ''gameId are required'', tbl)
      | Some g \<Rightarrow>
          (case upsertDevice dbf now d (Some u) (Some g) t platf appVersion
                  \<lparr>committed = tbl, pending = None\<rparr> of
             (Inr (rd, ru, rt), s') \<Rightarrow>
               ((200, [(''ok'', JBool True), (''deviceId'', JStr rd),
                       (''userId'', case ru of None \<Rightarrow> JNull | Some x \<Rightarrow> JDecimal x),
                       (''fcmToken'', JStr rt)]), committed s')
           | (Inl e, s') \<Rightarrow> (sendError 500 e, committed s'))))))"

subsection \<open>POST /push/token\<close>

definition push_token ::
  "'p send_one \<Rightarrow> string option \<Rightarrow> string option \<Rightarrow> string option \<Rightarrow> (string \<times> string) list option
     \<Rightarrow> string option \<Rightarrow> ('r, 'p, 'u) world \<Rightarrow> response \<times> ('r, 'p, 'u) world" where
  "push_token send1 token title body data img w =
     (case (or_null token, or_null title, or_null body) of
        (Some tok, Some ti, Some bo) \<Rightarrow>
          (let msg = \<lparr>m_notification = Some (notification_of ''imageUrl'' ti bo img),
                      m_data = data, m_android = None\<rparr>
           in case send1 (provider w) msg tok of
                (Inr msgId, p') \<Rightarrow>
                  ((200, [(''ok'', JBool True), (''msgId'', JStr msgId)]),
                   emit (SendOne msg tok (Inr msgId)) (w\<lparr>provider := p'\<rparr>))
              | (Inl e, p') \<Rightarrow>
                  (sendError 500 e, emit (SendOne msg tok (Inl e)) (w\<lparr>provider := p'\<rparr>)))
      | _ \<Rightarrow> (sendError 400 ''token, title, body are required'', w))"

subsection \<open>POST /push/user\<close>

text \<open>
  The part of the handler after \<^verbatim>\<open>chunk(tokens, 500)\<close>, the same in both servers up to
  the body of the 500 answer: the loop, then the deletions, then the answer. An
  exception anywhere in the \<^verbatim>\<open>try\<close> answers 500.
\<close>

definition dispatch_user ::
  "(string \<Rightarrow> response) \<Rightarrow> 'p multicast \<Rightarrow> 'u faults \<Rightarrow> message \<Rightarrow> string list list
     \<Rightarrow> (('u, 'z) device_base_scheme, 'p, 'u) world
     \<Rightarrow> response \<times> (('u, 'z) device_base_scheme, 'p, 'u) world" where
  "dispatch_user err send dbf msg chunks w =
     (case multicast_loop send msg chunks (0, 0, []) w of
        (Inl e, w') \<Rightarrow> (err e, w')
      | (Inr (sent, failed, deadTokens), w') \<Rightarrow>
          (case delete_all dbf deadTokens w' of
             (Some e, w'') \<Rightarrow> (err e, w'')
           | (None, w'') \<Rightarrow>
               ((200, [(''ok'', JBool True), (''sent'', JNum (int sent)),
                       (''failed'', JNum (int failed)),
                       (''removedDead'', JNum (int (length deadTokens)))]), w'')))"

definition no_tokens_response :: response where
  "no_tokens_response =
     (200, [(''ok'', JBool True), (''sent'', JNum 0), (''info'', JStr ''No tokens for user'')])"

text \<open>The result is \<open>None\<close> when the handler never answers (a chunking loop that does not end).\<close>

definition push_user_base ::
  "'p multicast \<Rightarrow> string faults \<Rightarrow> string option \<Rightarrow> string option \<Rightarrow> string option
     \<Rightarrow> (string \<times> string) list option \<Rightarrow> string option
     \<Rightarrow> (string device_base, 'p, string) world
     \<Rightarrow> (response \<times> (string device_base, 'p, string) world) option" where
  "push_user_base send dbf userId title body data img w =
     (case (or_null userId, or_null title, or_null body) of
        (Some u, Some ti, Some bo) \<Rightarrow>
          (case getTokensByUserId_base dbf u (registry w) of
             Inl e \<Rightarrow> Some (server_error_base e, emit (Query (SelectTokensByUser u)) w)
           | Inr tokens \<Rightarrow>
               if tokens = []
               then Some (no_tokens_response, emit (Query (SelectTokensByUser u)) w)
               else map_option
                      (\<lambda>chunks. dispatch_user server_error_base send dbf
                         \<lparr>m_notification = Some (notification_of ''image'' ti bo img),
                          m_data = data, m_android = None\<rparr>
                         chunks (emit (Query (SelectTokensByUser u)) w))
                      (chunk tokens 500))
      | _ \<Rightarrow> Some (bad_request_base ''userId, title, body are required'', w))"

text \<open>In the richer server \<^verbatim>\<open>userId\<close> is a number, and \<^verbatim>\<open>!userId\<close> refuses 0 as well.\<close>

definition push_user ::
  "'p multicast \<Rightarrow> int faults \<Rightarrow> int option \<Rightarrow> string option \<Rightarrow> string option
     \<Rightarrow> (string \<times> string) list option \<Rightarrow> string option
     \<Rightarrow> (int device, 'p, int) world
     \<Rightarrow> (response \<times> (int device, 'p, int) world) option" where
  "push_user send dbf userId title body data img w =
     (case (userId, or_null title, or_null body) of
        (Some u, Some ti, Some bo) \<Rightarrow>
          if u = 0 then Some (sendError 400 ''userId, title, body are required'', w)
          else
          (case getTokensByUserId dbf u (registry w) of
             Inl e \<Rightarrow> Some (sendError 500 e, emit (Query (SelectTokensByUser u)) w)
           | Inr tokens \<Rightarrow>
               if tokens = []
               then Some (no_tokens_response, emit (Query (SelectTokensByUser u)) w)
               else map_option
                      (\<lambda>chunks. dispatch_user (sendError 500) send dbf
                         \<lparr>m_notification = Some (notification_of ''imageUrl'' ti bo img),
                          m_data = data, m_android = None\<rparr>
                         chunks (emit (Query (SelectTokensByUser u)) w))
                      (chunk tokens 500))
      | _ \<Rightarrow> Some (sendError 400 ''userId, title, body are required'', w))"

subsection \<open>POST /push/all\<close>

text \<open>
  \<^verbatim>\<open>for (let page = 0; page < totalPages; page += 1)\<close>: one page is read, an empty page is
  skipped, a non-empty one is sent in one multicast call. Nothing is collected from the
  per-token results and nothing is deleted.
\<close>

function page_loop ::
  "'p multicast \<Rightarrow> 'u faults \<Rightarrow> message \<Rightarrow> nat \<Rightarrow> nat \<Rightarrow> nat \<Rightarrow> nat \<times> nat
     \<Rightarrow> ('u device, 'p, 'u) world \<Rightarrow> (string + nat \<times> nat) \<times> ('u device, 'p, 'u) world" where
  "page_loop send dbf msg limit totalPages page (sent, failed) w =
     (if page < totalPages
      then
        (case getAllActiveTokensPage dbf limit (page * limit) (registry w) of
           Inl e \<Rightarrow> (Inl e, emit (Query (SelectActivePage limit (page * limit))) w)
         | Inr tokens \<Rightarrow>
             if tokens = []
             then page_loop send dbf msg limit totalPages (page + 1) (sent, failed)
                    (emit (Query (SelectActivePage limit (page * limit))) w)
             else
               (case send (provider w) msg tokens of
                  (Inl e, p') \<Rightarrow>
                    (Inl e, emit (Multicast msg tokens (Inl e))
                              (emit (Query (SelectActivePage limit (page * limit)))
                                 (w\<lparr>provider := p'\<rparr>)))
                | (Inr resp, p') \<Rightarrow>
                    page_loop send dbf msg limit totalPages (page + 1)
                      (sent + successCount resp, failed + failureCount resp)
                      (emit (Multicast msg tokens (Inr resp))
                         (emit (Query (SelectActivePage limit (page * limit)))
                            (w\<lparr>provider := p'\<rparr>)))))
      else (Inr (sent, failed), w))"
  by pat_completeness auto
termination
  by (relation "measure (\<lambda>(send, dbf, msg, limit, totalPages, page, acc, w). totalPages - page)") auto

text \<open>
  \<^verbatim>\<open>Math.ceil(total / limit)\<close>; \<^verbatim>\<open>total\<close> (here \<open>totalCount\<close>) is a 32-bit count, so the quotient of the two
  doubles is exact enough for the ceiling to be the one of the real quotient.
\<close>

definition push_all ::
  "'p multicast \<Rightarrow> 'u faults \<Rightarrow> string option \<Rightarrow> string option \<Rightarrow> (string \<times> string) list option
     \<Rightarrow> string option \<Rightarrow> ('u device, 'p, 'u) world \<Rightarrow> response \<times> ('u device, 'p, 'u) world" where
  "push_all send dbf title body data img w =
     (case (or_null title, or_null body) of
        (Some ti, Some bo) \<Rightarrow>
          (let limit = 20 in
           case getActiveTokensCount dbf (registry w) of
             Inl e \<Rightarrow> (sendError 500 e, emit (Query SelectActiveCount) w)
           | Inr totalCount \<Rightarrow>
               if totalCount = 0
               then ((200, [(''ok'', JBool True), (''sent'', JNum 0),
                            (''info'', JStr ''No active users'')]),
                     emit (Query SelectActiveCount) w)
               else
                 (case page_loop send dbf
                         \<lparr>m_notification = Some (notification_of ''imageUrl'' ti bo img),
                          m_data = data, m_android = None\<rparr>
                         limit (nat \<lceil>real totalCount / real limit\<rceil>) 0 (0, 0)
                         (emit (Query SelectActiveCount) w) of
                    (Inl e, w') \<Rightarrow> (sendError 500 e, w')
                  | (Inr (sent, failed), w') \<Rightarrow>
                      ((200, [(''ok'', JBool True), (''sent'', JNum (int sent)),
                              (''failed'', JNum (int failed))]), w')))
      | _ \<Rightarrow> (sendError 400 ''title, body are required'', w))"

section \<open>kafka.ts: the SendUserNotification event\<close>

text \<open>
  A JavaScript number that is either NaN or an integer (fractions and the infinities
  are left out), and the \<^verbatim>\<open>number | string\<close> of the field \<^verbatim>\<open>userId\<close>.
\<close>

datatype jsnum = NaN | Num int

datatype uid_raw = UNum jsnum | UStr string

record kafka_data =
  kd_chatId :: "string option"
  kd_route :: "string option"
  kd_userId :: "uid_raw option"
  kd_title :: "string option"
  kd_body :: "string option"
  kd_image :: "string option"

text \<open>
  The built-ins the handler calls: \<^verbatim>\<open>Number(s)\<close> on a string, \<^verbatim>\<open>s.trim()\<close>, and
  \<^verbatim>\<open>new URL(s)\<close>, which raises (\<open>None\<close>) or gives the protocol and the serialised URL.
\<close>

record js_builtins =
  js_Number :: "string \<Rightarrow> jsnum"
  js_trim :: "string \<Rightarrow> string"
  js_URL :: "string \<Rightarrow> (string \<times> string) option"

definition normalizeImageUrl :: "js_builtins \<Rightarrow> string option \<Rightarrow> string option" where
  "normalizeImageUrl js v =
     (case v of
        None \<Rightarrow> None
      | Some s \<Rightarrow>
          (let trimmed = js_trim js s in
           if trimmed = [] then None
           else (case js_URL js trimmed of
                   None \<Rightarrow> None
                 | Some (protocol, href) \<Rightarrow>
                     if protocol \<noteq> ''http:'' \<and> protocol \<noteq> ''https:'' then None
                     else Some href)))"

text \<open>\<^verbatim>\<open>data?.field ?? ''\<close>\<close>

definition field_or_empty :: "kafka_data option \<Rightarrow> (kafka_data \<Rightarrow> string option) \<Rightarrow> string" where
  "field_or_empty d f =
     (case d of None \<Rightarrow> [] | Some x \<Rightarrow> (case f x of None \<Rightarrow> [] | Some v \<Rightarrow> v))"

text \<open>\<^verbatim>\<open>data?.userId ?? ''\<close>\<close>

definition userIdRaw_of :: "kafka_data option \<Rightarrow> uid_raw" where
  "userIdRaw_of d =
     (case d of
        None \<Rightarrow> UStr []
      | Some x \<Rightarrow> (case kd_userId x of None \<Rightarrow> UStr [] | Some v \<Rightarrow> v))"

text \<open>\<^verbatim>\<open>typeof userIdRaw === 'string' ? Number(userIdRaw) : userIdRaw\<close>\<close>

definition userId_number :: "js_builtins \<Rightarrow> uid_raw \<Rightarrow> jsnum" where
  "userId_number js raw = (case raw of UStr s \<Rightarrow> js_Number js s | UNum n \<Rightarrow> n)"

text \<open>The two \<^verbatim>\<open>responses.forEach\<close> that log every token sent and every token failed.\<close>

definition log_sent :: "int \<Rightarrow> string list \<Rightarrow> send_response list \<Rightarrow> 'u event list" where
  "log_sent userId part rs =
     map (\<lambda>(idx, r). ConsoleLog (Sent userId (js_index part idx)))
       (filter (\<lambda>(idx, r). success r) (enumerate 0 rs))"

definition log_failed :: "int \<Rightarrow> string list \<Rightarrow> send_response list \<Rightarrow> 'u event list" where
  "log_failed userId part rs =
     map (\<lambda>(idx, r). ConsoleError (Failed userId (js_index part idx) (code_of r)
                         (case error_message r of None \<Rightarrow> [] | Some m \<Rightarrow> m)))
       (filter (\<lambda>(idx, r). \<not> success r) (enumerate 0 rs))"

text \<open>The loop over the chunks; nothing catches a provider call that raises.\<close>

fun kafka_loop ::
  "'p multicast \<Rightarrow> message \<Rightarrow> int \<Rightarrow> string list list \<Rightarrow> string option list
     \<Rightarrow> ('r, 'p, 'u) world \<Rightarrow> (string + string option list) \<times> ('r, 'p, 'u) world" where
  "kafka_loop send msg userId [] deadTokens w = (Inr deadTokens, w)"
| "kafka_loop send msg userId (part # rest) deadTokens w =
     (case send (provider w) msg part of
        (Inl e, p') \<Rightarrow> (Inl e, emit (Multicast msg part (Inl e)) (w\<lparr>provider := p'\<rparr>))
      | (Inr resp, p') \<Rightarrow>
          kafka_loop send msg userId rest (deadTokens @ dead_of_batch part (responses resp))
            (w\<lparr>provider := p',
               events := events w @ [Multicast msg part (Inr resp)]
                 @ log_sent userId part (responses resp)
                 @ log_failed userId part (responses resp)\<rparr>))"

definition kafka_dispatch ::
  "'p multicast \<Rightarrow> int faults \<Rightarrow> message \<Rightarrow> int \<Rightarrow> string list list
     \<Rightarrow> (int device, 'p, int) world \<Rightarrow> (string + unit) \<times> (int device, 'p, int) world" where
  "kafka_dispatch send dbf msg userId chunks w =
     (case kafka_loop send msg userId chunks [] w of
        (Inl e, w') \<Rightarrow> (Inl e, w')
      | (Inr deadTokens, w') \<Rightarrow>
          if deadTokens = [] then (Inr (), w')
          else (case delete_all dbf deadTokens w' of
                  (Some e, w'') \<Rightarrow> (Inl e, w'')
                | (None, w'') \<Rightarrow> (Inr (), w'')))"

text \<open>
  \<open>Inl msg\<close> is an exception leaving the handler, \<open>Inr ()\<close> a normal return, \<open>None\<close> a
  handler that never returns.
\<close>

definition handleSendUserNotification ::
  "js_builtins \<Rightarrow> 'p multicast \<Rightarrow> int faults \<Rightarrow> kafka_data option
     \<Rightarrow> (int device, 'p, int) world \<Rightarrow> ((string + unit) \<times> (int device, 'p, int) world) option" where
  "handleSendUserNotification js send dbf data w =
     (let userIdRaw = userIdRaw_of data;
          chatId = field_or_empty data kd_chatId;
          title = field_or_empty data kd_title;
          body = field_or_empty data kd_body;
          img = (case normalizeImageUrl js (case data of None \<Rightarrow> None | Some x \<Rightarrow> kd_image x) of
                   None \<Rightarrow> []
                 | Some u \<Rightarrow> u);
          route = field_or_empty data kd_route;
          userId = userId_number js userIdRaw
      in case userId of
           NaN \<Rightarrow> Some (Inr (), emit (ConsoleError InvalidUserId) w)
         | Num u \<Rightarrow>
             if u = 0 then Some (Inr (), emit (ConsoleError InvalidUserId) w)
             else if title = [] \<or> body = []
             then Some (Inr (), emit (ConsoleError MissingTitleBody) w)
             else
               (case getTokensByUserId dbf u (registry w) of
                  Inl e \<Rightarrow>
                    Some (Inr (), emit (ConsoleError (LoadTokensFailed u e))
                                    (emit (Query (SelectTokensByUser u)) w))
                | Inr tokens \<Rightarrow>
                    if tokens = []
                    then Some (Inr (), emit (ConsoleLog (NoActiveTokens u))
                                         (emit (Query (SelectTokensByUser u)) w))
                    else map_option
                           (\<lambda>chunks. kafka_dispatch send dbf
                              \<lparr>m_notification = None,
                               m_data = Some [(''eventName'', ''SendUserNotification''),
                                              (''chatId'', chatId), (''title'', title),
                                              (''route'', route), (''body'', body),
                                              (''image'', img)],
                               m_android = Some [(''priority'', ''high'')]\<rparr>
                              u chunks (emit (Query (SelectTokensByUser u)) w))
                           (chunk tokens 500)))"

section \<open>What a run of a handler shows\<close>

text \<open>
  Read off the events of a run: the token lists handed to the provider, the provider
  calls that raised, the sum of the two counters of each multicast answer, and the
  pages asked of the database.
\<close>

fun batch_of :: "'u event \<Rightarrow> string list option" where
  "batch_of (Multicast m part r) = Some part"
| "batch_of _ = None"

definition batches :: "'u event list \<Rightarrow> string list list" where
  "batches evs = List.map_filter batch_of evs"

fun raised :: "'u event \<Rightarrow> bool" where
  "raised (Multicast m part (Inl e)) = True"
| "raised (SendOne m tok (Inl e)) = True"
| "raised _ = False"

fun counted :: "'u event \<Rightarrow> nat" where
  "counted (Multicast m part (Inr r)) = successCount r + failureCount r"
| "counted _ = 0"

fun page_of :: "'u event \<Rightarrow> (nat \<times> nat) option" where
  "page_of (Query (SelectActivePage limit offset)) = Some (limit, offset)"
| "page_of _ = None"

definition pages_fetched :: "'u event list \<Rightarrow> (nat \<times> nat) list" where
  "pages_fetched evs = List.map_filter page_of evs"

text \<open>
  The tokens a multicast answer reports as unregistered or malformed: the ones at the
  positions of the failures whose code says so.
\<close>

fun reported_dead :: "'u event \<Rightarrow> string option list" where
  "reported_dead (Multicast m part (Inr r)) = dead_of_batch part (responses r)"
| "reported_dead _ = []"


section \<open>Proofs: the registry\<close>

lemma andThen_Inr:
  "andThen m f s = (Inr b, s'') \<longleftrightarrow> (\<exists>a s'. m s = (Inr a, s') \<and> f a s' = (Inr b, s''))"
  by (auto simp: andThen_def split: prod.splits sum.splits)

lemma andThen_Inl:
  "andThen m f s = (Inl e, s'') \<longleftrightarrow>
     m s = (Inl e, s'') \<or> (\<exists>a s'. m s = (Inr a, s') \<and> f a s' = (Inl e, s''))"
  by (auto simp: andThen_def split: prod.splits sum.splits)

lemma client_begin_Inr:
  "client_begin dbf s = (Inr a, s') \<longleftrightarrow> dbf Begin = None \<and> s' = sql_begin s"
  by (auto simp: client_begin_def split: option.splits)

lemma client_begin_Inl:
  "client_begin dbf s = (Inl e, s') \<longleftrightarrow> dbf Begin = Some e \<and> s' = s"
  by (auto simp: client_begin_def split: option.splits)

lemma client_commit_Inr:
  "client_commit dbf s = (Inr a, s') \<longleftrightarrow> dbf Commit = None \<and> s' = sql_commit s"
  by (auto simp: client_commit_def split: option.splits)

lemma client_commit_Inl:
  "client_commit dbf s = (Inl e, s') \<longleftrightarrow> dbf Commit = Some e \<and> s' = s"
  by (auto simp: client_commit_def split: option.splits)

lemma client_query_Inr:
  "client_query dbf q f s = (Inr a, s') \<longleftrightarrow>
     dbf q = None \<and> (\<exists>t. f (current s) = Inr (t, a) \<and> s' = store t s)"
  by (auto simp: client_query_def split: option.splits sum.splits)

lemma client_query_Inl:
  "client_query dbf q f s = (Inl e, s') \<Longrightarrow> s' = s"
  by (auto simp: client_query_def split: option.splits sum.splits)

lemma first_row_state: "first_row rows s = (r, s') \<Longrightarrow> s' = s"
  by (auto simp: first_row_def split: list.splits)

lemma first_row_Inr:
  "first_row rows s = (Inr res, s') \<longleftrightarrow>
     (\<exists>r rs. rows = r # rs \<and> res = (device_id r, user_id r, fcm_token r)) \<and> s' = s"
  by (auto simp: first_row_def split: list.splits)

lemma store_in_txn: "pending s = Some x \<Longrightarrow> store t s = s\<lparr>pending := Some t\<rparr>"
  by (simp add: store_def)

lemma current_begin: "current (sql_begin s) = current s"
  by (simp add: current_def sql_begin_def)

lemma upsertDevice_try_Inr:
  assumes "upsertDevice_try dbf now d u g t p a s = (Inr res, s')"
  shows "\<exists>t1 t2 t3 rows.
           dbf Begin = None \<and> dbf (DeleteOtherHolder t d) = None \<and> dbf (Deactivate d) = None
         \<and> dbf (InsertOnConflict d) = None \<and> dbf Commit = None
         \<and> delete_other_holder t d (current s) = Inr (t1, ())
         \<and> deactivate d t1 = Inr (t2, ())
         \<and> insert_on_conflict
                   \<lparr>device_id = d, user_id = u, fcm_token = t,
                    platform = or_null p, app_version = or_null a,
                    created_at = now, updated_at = now, game_id = g, active = True\<rparr>
                   (\<lambda>r. r\<lparr>user_id := u, game_id := g, fcm_token := t,
                          platform := or_null p, app_version := or_null a,
                          active := True, updated_at := now\<rparr>) t2 = Inr (t3, rows)
         \<and> first_row rows s' = (Inr res, s')
         \<and> s' = \<lparr>committed = t3, pending = None\<rparr>"
  using assms
  by (auto simp: upsertDevice_try_def andThen_Inr client_begin_Inr client_commit_Inr
        client_query_Inr first_row_Inr sql_begin_def sql_commit_def current_def store_def)


lemma insert_on_conflict_Inr:
  "insert_on_conflict new upd tbl = Inr (t3, rows) \<longleftrightarrow>
     (\<forall>r \<in> set tbl. fcm_token r = fcm_token new \<longrightarrow> device_id r = device_id new)
   \<and> t3 = (if device_id new \<in> device_id ` set tbl
             then map (\<lambda>r. if device_id r = device_id new then upd r else r) tbl
             else tbl @ [new])
   \<and> rows = filter (\<lambda>r. device_id r = device_id new) t3"
  by (auto simp: insert_on_conflict_def Let_def image_iff)

lemma insert_on_conflict_rows:
  assumes "insert_on_conflict new upd tbl = Inr (t3, rows)" "\<And>r. device_id (upd r) = device_id r"
  shows "rows \<noteq> []"
proof (cases "device_id new \<in> device_id ` set tbl")
  case True
  then obtain r where r: "r \<in> set tbl" "device_id r = device_id new" by auto
  then have "upd r \<in> set t3" using assms(1) True
    by (auto simp: insert_on_conflict_Inr image_iff intro!: bexI[of _ r])
  moreover have "device_id (upd r) = device_id new" using r assms(2) by simp
  ultimately show ?thesis using assms(1) by (auto simp: insert_on_conflict_Inr filter_empty_conv)
next
  case False
  then show ?thesis using assms(1) by (auto simp: insert_on_conflict_Inr)
qed

lemma first_row_Inl: "first_row rows s = (Inl e, s') \<Longrightarrow> rows = []"
  by (auto simp: first_row_def split: list.splits)

lemma client_query_committed:
  "pending s \<noteq> None \<Longrightarrow> client_query dbf q f s = (r, s') \<Longrightarrow> committed s' = committed s \<and> pending s' \<noteq> None"
  by (auto simp: client_query_def store_def split: option.splits sum.splits)

lemma upsertDevice_try_Inl:
  assumes "upsertDevice_try dbf now d u g t p a s = (Inl e, s')"
  shows "committed s' = committed s"
  using assms
  unfolding upsertDevice_try_def andThen_Inl andThen_Inr client_begin_Inr client_begin_Inl client_commit_Inl client_commit_Inr
  apply (elim disjE exE conjE)
  subgoal by simp
  subgoal by (drule client_query_committed[rotated]; simp add: sql_begin_def)
  subgoal
    apply (drule client_query_committed[rotated], simp add: sql_begin_def)
    apply (drule client_query_committed[rotated], simp)
    by (simp add: sql_begin_def)
  subgoal
   apply (drule client_query_committed[rotated], simp add: sql_begin_def)
   apply (drule client_query_committed[rotated], simp)
   apply (drule client_query_committed[rotated], simp)
    by (simp add: sql_begin_def)
  subgoal
   apply (drule client_query_committed[rotated], simp add: sql_begin_def)
   apply (drule client_query_committed[rotated], simp)
   apply (drule client_query_committed[rotated], simp)
   by (simp add: sql_begin_def)
  subgoal
    by (auto simp: client_query_Inr dest!: first_row_Inl insert_on_conflict_rows)
  done

lemma delete_other_holder_Inr:
  "delete_other_holder t d tbl = Inr (t1, x) \<longleftrightarrow>
     t1 = filter (\<lambda>r. \<not> (fcm_token r = t \<and> device_id r \<noteq> d)) tbl"
  by (auto simp: delete_other_holder_def)

lemma deactivate_Inr:
  "deactivate d tbl = Inr (t2, x) \<longleftrightarrow>
     t2 = map (\<lambda>r. if device_id r = d then r\<lparr>active := False\<rparr> else r) tbl"
  by (auto simp: deactivate_def)

lemma registry_inv_filter: "registry_inv tbl \<Longrightarrow> registry_inv (filter P tbl)"
  by (simp add: registry_inv_def distinct_map_filter)

lemma map_keys_deactivate:
  "map device_id (map (\<lambda>r. if device_id r = d then r\<lparr>active := False\<rparr> else r) tbl) = map device_id tbl"
  "map fcm_token (map (\<lambda>r. if device_id r = d then r\<lparr>active := False\<rparr> else r) tbl) = map fcm_token tbl"
  by (induction tbl) auto

lemma distinct_tokens_update:
  assumes "distinct (map device_id tbl)" "distinct (map fcm_token tbl)"
    and "\<forall>r \<in> set tbl. fcm_token r = t \<longrightarrow> device_id r = d"
    and "\<And>r. fcm_token (upd r) = t"
  shows "distinct (map fcm_token (map (\<lambda>r. if device_id r = d then upd r else r) tbl))"
  using assms(1-3)
proof (induction tbl)
  case Nil
  then show ?case by simp
next
  case (Cons r tbl)
  show ?case
  proof (cases "device_id r = d")
    case True
    then have no: "\<forall>x \<in> set tbl. device_id x \<noteq> d" using Cons.prems(1) by (auto simp: image_iff)
    then have same: "map (\<lambda>r. if device_id r = d then upd r else r) tbl = tbl"
      by (simp add: map_idI)
    have "t \<notin> fcm_token ` set tbl" using no Cons.prems(3) by auto
    then show ?thesis using True same Cons.prems(2) assms(4) by simp
  next
    case False
    have "fcm_token (if device_id x = d then upd x else x) \<noteq> fcm_token r" if x: "x \<in> set tbl" for x
    proof (cases "device_id x = d")
      case True
      have "fcm_token r \<noteq> t" using Cons.prems(3) False by auto
      then show ?thesis using True assms(4) by simp
    next
      case F: False
      have "fcm_token x \<noteq> fcm_token r" using x Cons.prems(2) by (auto simp: image_iff)
      then show ?thesis using F by simp
    qed
    then have "\<forall>x \<in> set tbl. fcm_token (if device_id x = d then upd x else x) \<noteq> fcm_token r"
      by blast
    moreover have "distinct (map fcm_token (map (\<lambda>r. if device_id r = d then upd r else r) tbl))"
      using Cons by simp
    ultimately show ?thesis using False by (auto simp: image_iff)
  qed
qed

lemma map_device_id_update:
  assumes "\<And>r. device_id (upd r) = device_id r"
  shows "map device_id (map (\<lambda>r. if P r then upd r else r) tbl) = map device_id tbl"
  by (induction tbl) (auto simp: assms)

lemma insert_on_conflict_inv:
  assumes ins: "insert_on_conflict new upd tbl = Inr (t3, rows)"
    and inv: "registry_inv tbl"
    and upd: "\<And>r. device_id (upd r) = device_id r" "\<And>r. fcm_token (upd r) = fcm_token new"
  shows "registry_inv t3"
proof -
  from ins have only: "\<forall>r \<in> set tbl. fcm_token r = fcm_token new \<longrightarrow> device_id r = device_id new"
    and t3: "t3 = (if device_id new \<in> device_id ` set tbl
             then map (\<lambda>r. if device_id r = device_id new then upd r else r) tbl
             else tbl @ [new])"
    by (simp_all add: insert_on_conflict_Inr)
  show ?thesis
  proof (cases "device_id new \<in> device_id ` set tbl")
    case True
    have "map device_id t3 = map device_id tbl"
      unfolding t3 using True upd(1) by (simp add: map_device_id_update)
    then have "distinct (map device_id t3)" using inv by (simp add: registry_inv_def)
    moreover have "distinct (map fcm_token (map (\<lambda>r. if device_id r = device_id new then upd r else r) tbl))"
      using inv only upd(2) by (intro distinct_tokens_update) (auto simp: registry_inv_def)
    then have "distinct (map fcm_token t3)" using True t3 by simp
    ultimately show ?thesis by (simp add: registry_inv_def)
  next
    case False
    then have "fcm_token new \<notin> fcm_token ` set tbl" using only by (auto simp: image_iff)
    then show ?thesis using False t3 inv by (simp add: registry_inv_def)
  qed
qed


lemma upsertDevice_base_try_Inr:
  assumes "upsertDevice_base_try dbf now d u t p a s = (Inr res, s')"
  shows "\<exists>t1 t3 rows.
           dbf Begin = None \<and> dbf (DeleteOtherHolder t d) = None
         \<and> dbf (InsertOnConflict d) = None \<and> dbf Commit = None
         \<and> delete_other_holder t d (current s) = Inr (t1, ())
         \<and> insert_on_conflict
                   \<lparr>device_id = d, user_id = or_null u, fcm_token = t,
                    platform = or_null p, app_version = or_null a,
                    created_at = now, updated_at = now\<rparr>
                   (\<lambda>r. r\<lparr>user_id := or_null u, fcm_token := t,
                          platform := or_null p, app_version := or_null a,
                          updated_at := now\<rparr>) t1 = Inr (t3, rows)
         \<and> first_row rows s' = (Inr res, s')
         \<and> s' = \<lparr>committed = t3, pending = None\<rparr>"
  using assms
  by (auto simp: upsertDevice_base_try_def andThen_Inr client_begin_Inr client_commit_Inr
        client_query_Inr first_row_Inr sql_begin_def sql_commit_def current_def store_def)

lemma upsertDevice_base_try_Inl:
  assumes "upsertDevice_base_try dbf now d u t p a s = (Inl e, s')"
  shows "committed s' = committed s"
  using assms
  unfolding upsertDevice_base_try_def andThen_Inl andThen_Inr client_begin_Inr client_begin_Inl
    client_commit_Inl client_commit_Inr
  apply (elim disjE exE conjE)
  subgoal by simp
  subgoal by (drule client_query_committed[rotated]; simp add: sql_begin_def)
  subgoal
    apply (drule client_query_committed[rotated], simp add: sql_begin_def)
    apply (drule client_query_committed[rotated], simp)
    by (simp add: sql_begin_def)
  subgoal
    apply (drule client_query_committed[rotated], simp add: sql_begin_def)
    apply (drule client_query_committed[rotated], simp)
    by (simp add: sql_begin_def)
  subgoal
    by (auto simp: client_query_Inr dest!: first_row_Inl insert_on_conflict_rows)
  done

lemma upsertDevice_Inl:
  assumes "upsertDevice dbf now d u g t p a s = (Inl e, s')" "pending s = None"
  shows "s' = s"
  using assms
  by (auto simp: upsertDevice_def sql_rollback_def split: option.splits prod.splits sum.splits
      dest!: upsertDevice_try_Inl)

lemma upsertDevice_base_Inl:
  assumes "upsertDevice_base dbf now d u t p a s = (Inl e, s')" "pending s = None"
  shows "s' = s"
  using assms
  by (auto simp: upsertDevice_base_def sql_rollback_def split: option.splits prod.splits sum.splits
      dest!: upsertDevice_base_try_Inl)

lemma upsertDevice_Inr:
  "upsertDevice dbf now d u g t p a s = (Inr res, s') \<longleftrightarrow>
     dbf Connect = None \<and> upsertDevice_try dbf now d u g t p a s = (Inr res, s')"
  by (auto simp: upsertDevice_def split: option.splits prod.splits sum.splits)

lemma upsertDevice_base_Inr:
  "upsertDevice_base dbf now d u t p a s = (Inr res, s') \<longleftrightarrow>
     dbf Connect = None \<and> upsertDevice_base_try dbf now d u t p a s = (Inr res, s')"
  by (auto simp: upsertDevice_base_def split: option.splits prod.splits sum.splits)

lemma upsertDevice_fault:
  assumes "q \<in> {Connect, Begin, DeleteOtherHolder t d, Deactivate d, InsertOnConflict d, Commit}"
    and "dbf q \<noteq> None"
  shows "\<exists>e s'. upsertDevice dbf now d u g t p a s = (Inl e, s')"
proof (cases "upsertDevice dbf now d u g t p a s")
  case (Pair r s')
  show ?thesis
  proof (cases r)
    case (Inl e)
    then show ?thesis using Pair by auto
  next
    case (Inr res)
    then have "dbf Connect = None" "upsertDevice_try dbf now d u g t p a s = (Inr res, s')"
      using Pair by (simp_all add: upsertDevice_Inr)
    then show ?thesis using assms upsertDevice_try_Inr[of dbf now d u g t p a s res s'] by auto
  qed
qed

lemma upsertDevice_base_fault:
  assumes "q \<in> {Connect, Begin, DeleteOtherHolder t d, InsertOnConflict d, Commit}"
    and "dbf q \<noteq> None"
  shows "\<exists>e s'. upsertDevice_base dbf now d u t p a s = (Inl e, s')"
proof (cases "upsertDevice_base dbf now d u t p a s")
  case (Pair r s')
  show ?thesis
  proof (cases r)
    case (Inl e)
    then show ?thesis using Pair by auto
  next
    case (Inr res)
    then have "dbf Connect = None" "upsertDevice_base_try dbf now d u t p a s = (Inr res, s')"
      using Pair by (simp_all add: upsertDevice_base_Inr)
    then show ?thesis using assms upsertDevice_base_try_Inr[of dbf now d u t p a s res s'] by auto
  qed
qed

lemma filter_update_others:
  assumes "\<And>r. device_id (upd r) = device_id r"
  shows "filter (\<lambda>r. device_id r \<noteq> d) (map (\<lambda>r. if device_id r = d then upd r else r) tbl)
           = filter (\<lambda>r. device_id r \<noteq> d) tbl"
  by (induction tbl) (auto simp: assms)

lemma upsert_table_props:
  fixes tbl :: "('u, 'z) device_base_scheme list"
  assumes inv: "registry_inv tbl"
    and t1: "t1 = filter (\<lambda>r. \<not> (fcm_token r = t \<and> device_id r \<noteq> d)) tbl"
    and t2: "t2 = map (\<lambda>r. if device_id r = d then soft r else r) t1"
    and soft: "\<And>r. device_id (soft r) = device_id r" "\<And>r. fcm_token (soft r) = fcm_token r"
    and ins: "insert_on_conflict new upd t2 = Inr (t3, rows)"
    and new: "device_id new = d" "fcm_token new = t"
    and upd: "\<And>r. device_id (upd r) = device_id r" "\<And>r. fcm_token (upd r) = t"
  shows "registry_inv t3"
    and "\<forall>r \<in> set t3. fcm_token r = t \<longleftrightarrow> device_id r = d"
    and "d \<in> device_id ` set t3"
    and "filter (\<lambda>r. device_id r \<noteq> d) t3 = filter (\<lambda>r. device_id r \<noteq> d \<and> fcm_token r \<noteq> t) tbl"
    and "d \<in> device_id ` set tbl \<longrightarrow> map device_id t3 = map device_id t1"
proof -
  have k2: "map device_id t2 = map device_id t1"
    unfolding t2 by (simp add: map_device_id_update soft(1))
  have f2: "map fcm_token t2 = map fcm_token t1"
    unfolding t2 by (induction t1) (auto simp: soft(2))
  have inv1: "registry_inv t1" unfolding t1 using inv by (rule registry_inv_filter)
  then have inv2: "registry_inv t2" using k2 f2 by (simp add: registry_inv_def)
  from ins have only: "\<forall>r \<in> set t2. fcm_token r = t \<longrightarrow> device_id r = d"
    and t3: "t3 = (if d \<in> device_id ` set t2
             then map (\<lambda>r. if device_id r = d then upd r else r) t2
             else t2 @ [new])"
    by (simp_all add: insert_on_conflict_Inr new)
  show "registry_inv t3"
    using ins inv2 upd new by (intro insert_on_conflict_inv[OF ins]) auto
  show "\<forall>r \<in> set t3. fcm_token r = t \<longleftrightarrow> device_id r = d"
    using only by (auto simp: t3 new upd split: if_splits)
  have m3: "map device_id t3 = (if d \<in> device_id ` set t2 then map device_id t2 else map device_id t2 @ [d])"
    by (simp add: t3 map_device_id_update upd(1) new)
  then have "set (map device_id t3) = (if d \<in> device_id ` set t2 then device_id ` set t2 else insert d (device_id ` set t2))"
    by (simp only: set_map set_append split: if_splits) auto
  then show "d \<in> device_id ` set t3"
    by (simp only: set_map split: if_splits) auto
  have "filter (\<lambda>r. device_id r \<noteq> d) t3 = filter (\<lambda>r. device_id r \<noteq> d) t2"
    by (simp add: t3 new filter_update_others upd(1))
  also have "\<dots> = filter (\<lambda>r. device_id r \<noteq> d) t1"
    unfolding t2 by (simp add: filter_update_others soft(1))
  also have "\<dots> = filter (\<lambda>r. device_id r \<noteq> d \<and> fcm_token r \<noteq> t) tbl"
    unfolding t1 by (auto intro: filter_cong)
  finally show "filter (\<lambda>r. device_id r \<noteq> d) t3
      = filter (\<lambda>r. device_id r \<noteq> d \<and> fcm_token r \<noteq> t) tbl" .
  show "d \<in> device_id ` set tbl \<longrightarrow> map device_id t3 = map device_id t1"
  proof
    assume "d \<in> device_id ` set tbl"
    then have "d \<in> device_id ` set t1" unfolding t1 by auto
    then have "d \<in> device_id ` set t2" using k2 by (metis set_map)
    then show "map device_id t3 = map device_id t1"
      using k2 m3 by simp
  qed
qed


lemma one_row_for_key:
  assumes "distinct (map f xs)" "k \<in> f ` set xs"
  shows "length (filter (\<lambda>r. f r = k) xs) = 1"
  using assms
proof (induction xs)
  case Nil
  then show ?case by simp
next
  case (Cons x xs)
  show ?case
  proof (cases "f x = k")
    case True
    then have "\<forall>y \<in> set xs. f y \<noteq> k" using Cons.prems(1) by (auto simp: image_iff)
    then have "filter (\<lambda>r. f r = k) xs = []" by (simp add: filter_empty_conv)
    then show ?thesis using True by simp
  next
    case False
    then have "k \<in> f ` set xs" using Cons.prems(2) by auto
    then show ?thesis using Cons False by simp
  qed
qed

lemma upsertDevice_success:
  assumes inv: "registry_inv (committed s)" and idle: "pending s = None"
    and run: "upsertDevice dbf now d u g t p a s = (Inr res, s')"
  shows "pending s' = None \<and> res = (d, u, t) \<and> registry_inv (committed s')
     \<and> (\<forall>r \<in> set (committed s'). fcm_token r = t \<longleftrightarrow> device_id r = d)
     \<and> length (filter (\<lambda>r. device_id r = d) (committed s')) = 1
     \<and> filter (\<lambda>r. device_id r \<noteq> d) (committed s')
           = filter (\<lambda>r. device_id r \<noteq> d \<and> fcm_token r \<noteq> t) (committed s)
     \<and> (d \<in> device_id ` set (committed s) \<longrightarrow>
          map device_id (committed s')
            = map device_id (filter (\<lambda>r. \<not> (fcm_token r = t \<and> device_id r \<noteq> d)) (committed s)))"
proof -
  from run have "upsertDevice_try dbf now d u g t p a s = (Inr res, s')"
    by (simp add: upsertDevice_Inr)
  from upsertDevice_try_Inr[OF this] obtain t1 t2 t3 rows where
    t1: "delete_other_holder t d (current s) = Inr (t1, ())"
    and t2: "deactivate d t1 = Inr (t2, ())"
    and ins: "insert_on_conflict
                   \<lparr>device_id = d, user_id = u, fcm_token = t,
                    platform = or_null p, app_version = or_null a,
                    created_at = now, updated_at = now, game_id = g, active = True\<rparr>
                   (\<lambda>r. r\<lparr>user_id := u, game_id := g, fcm_token := t,
                          platform := or_null p, app_version := or_null a,
                          active := True, updated_at := now\<rparr>) t2 = Inr (t3, rows)"
    and res: "first_row rows s' = (Inr res, s')"
    and s': "s' = \<lparr>committed = t3, pending = None\<rparr>"
    by blast
  have t1': "t1 = filter (\<lambda>r. \<not> (fcm_token r = t \<and> device_id r \<noteq> d)) (committed s)"
    using t1 idle by (simp add: delete_other_holder_Inr current_def)
  have t2': "t2 = map (\<lambda>r. if device_id r = d then r\<lparr>active := False\<rparr> else r) t1"
    using t2 by (simp add: deactivate_Inr)
  note props = upsert_table_props[OF inv t1' t2' _ _ ins]
  have p1: "registry_inv t3" by (rule props(1)) simp_all
  have p2: "\<forall>r \<in> set t3. fcm_token r = t \<longleftrightarrow> device_id r = d" by (rule props(2)) simp_all
  have p3: "d \<in> device_id ` set t3" by (rule props(3)) simp_all
  have p4: "filter (\<lambda>r. device_id r \<noteq> d) t3
      = filter (\<lambda>r. device_id r \<noteq> d \<and> fcm_token r \<noteq> t) (committed s)" by (rule props(4)) simp_all
  have p5: "d \<in> device_id ` set (committed s) \<longrightarrow> map device_id t3 = map device_id t1"
    by (rule props(5)) simp_all
  have one: "length (filter (\<lambda>r. device_id r = d) t3) = 1"
    using p1 p3 by (intro one_row_for_key) (simp_all add: registry_inv_def)
  have rows: "rows = filter (\<lambda>r. device_id r = d) t3"
    using ins by (simp add: insert_on_conflict_Inr)
  obtain r where r: "rows = [r]" using one rows
    by (cases rows) (auto simp: length_Suc_conv)
  then have "r \<in> set (filter (\<lambda>r. device_id r = d) t3)" using rows by simp
  then have "r \<in> set t3" "device_id r = d" by simp_all
  then have "fcm_token r = t" using p2 by blast
  have "user_id r = u"
  proof -
    have "\<forall>x \<in> set t3. device_id x = d \<longrightarrow> user_id x = u"
      using ins by (auto simp: insert_on_conflict_Inr split: if_splits)
    then show ?thesis using \<open>r \<in> set t3\<close> \<open>device_id r = d\<close> by blast
  qed
  have "res = (d, u, t)"
    using res r \<open>device_id r = d\<close> \<open>fcm_token r = t\<close> \<open>user_id r = u\<close>
    by (simp add: first_row_Inr)
  then show ?thesis using s' p1 p2 p4 p5 one t1' by simp
qed

lemma upsertDevice_base_success:
  assumes inv: "registry_inv (committed s)" and idle: "pending s = None"
    and run: "upsertDevice_base dbf now d u t p a s = (Inr res, s')"
  shows "pending s' = None \<and> res = (d, or_null u, t) \<and> registry_inv (committed s')
     \<and> (\<forall>r \<in> set (committed s'). fcm_token r = t \<longleftrightarrow> device_id r = d)
     \<and> length (filter (\<lambda>r. device_id r = d) (committed s')) = 1
     \<and> filter (\<lambda>r. device_id r \<noteq> d) (committed s')
           = filter (\<lambda>r. device_id r \<noteq> d \<and> fcm_token r \<noteq> t) (committed s)
     \<and> (d \<in> device_id ` set (committed s) \<longrightarrow>
          map device_id (committed s')
            = map device_id (filter (\<lambda>r. \<not> (fcm_token r = t \<and> device_id r \<noteq> d)) (committed s)))"
proof -
  from run have "upsertDevice_base_try dbf now d u t p a s = (Inr res, s')"
    by (simp add: upsertDevice_base_Inr)
  from upsertDevice_base_try_Inr[OF this] obtain t1 t3 rows where
    t1: "delete_other_holder t d (current s) = Inr (t1, ())"
    and ins: "insert_on_conflict
                   \<lparr>device_id = d, user_id = or_null u, fcm_token = t,
                    platform = or_null p, app_version = or_null a,
                    created_at = now, updated_at = now\<rparr>
                   (\<lambda>r. r\<lparr>user_id := or_null u, fcm_token := t,
                          platform := or_null p, app_version := or_null a,
                          updated_at := now\<rparr>) t1 = Inr (t3, rows)"
    and res: "first_row rows s' = (Inr res, s')"
    and s': "s' = \<lparr>committed = t3, pending = None\<rparr>"
    by blast
  have t1': "t1 = filter (\<lambda>r. \<not> (fcm_token r = t \<and> device_id r \<noteq> d)) (committed s)"
    using t1 idle by (simp add: delete_other_holder_Inr current_def)
  have t2': "t1 = map (\<lambda>r. if device_id r = d then r else r) t1"
    by simp
  note props = upsert_table_props[OF inv t1' t2' _ _ ins]
  have p1: "registry_inv t3" by (rule props(1)) simp_all
  have p2: "\<forall>r \<in> set t3. fcm_token r = t \<longleftrightarrow> device_id r = d" by (rule props(2)) simp_all
  have p3: "d \<in> device_id ` set t3" by (rule props(3)) simp_all
  have p4: "filter (\<lambda>r. device_id r \<noteq> d) t3
      = filter (\<lambda>r. device_id r \<noteq> d \<and> fcm_token r \<noteq> t) (committed s)" by (rule props(4)) simp_all
  have p5: "d \<in> device_id ` set (committed s) \<longrightarrow> map device_id t3 = map device_id t1"
    by (rule props(5)) simp_all
  have one: "length (filter (\<lambda>r. device_id r = d) t3) = 1"
    using p1 p3 by (intro one_row_for_key) (simp_all add: registry_inv_def)
  have rows: "rows = filter (\<lambda>r. device_id r = d) t3"
    using ins by (simp add: insert_on_conflict_Inr)
  obtain r where r: "rows = [r]" using one rows
    by (cases rows) (auto simp: length_Suc_conv)
  then have "r \<in> set (filter (\<lambda>r. device_id r = d) t3)" using rows by simp
  then have "r \<in> set t3" "device_id r = d" by simp_all
  then have "fcm_token r = t" using p2 by blast
  have "user_id r = or_null u"
  proof -
    have "\<forall>x \<in> set t3. device_id x = d \<longrightarrow> user_id x = or_null u"
      using ins by (auto simp: insert_on_conflict_Inr split: if_splits)
    then show ?thesis using \<open>r \<in> set t3\<close> \<open>device_id r = d\<close> by blast
  qed
  have "res = (d, or_null u, t)"
    using res r \<open>device_id r = d\<close> \<open>fcm_token r = t\<close> \<open>user_id r = or_null u\<close>
    by (simp add: first_row_Inr)
  then show ?thesis using s' p1 p2 p4 p5 one t1' by simp
qed

lemma deleteToken_Inr:
  "deleteToken dbf tok tbl = Inr tbl' \<longleftrightarrow>
     dbf (DeleteByToken tok) = None \<and> tbl' = filter (\<lambda>r. Some (fcm_token r) \<noteq> tok) tbl"
  by (auto simp: deleteToken_def split: option.splits)

lemma deleteDeviceByIdentifiers_Inr:
  "deleteDeviceByIdentifiers dbf d t u g tbl = Inr (n, tbl') \<longleftrightarrow>
     dbf (DeleteByIdentifiers d t u g) = None
   \<and> n = length (filter (matches_identifiers d t u g) tbl)
   \<and> tbl' = filter (\<lambda>r. \<not> matches_identifiers d t u g r) tbl"
  by (auto simp: deleteDeviceByIdentifiers_def split: option.splits)

text \<open>
  Claim C9. When no row matches the four identifiers, \<^verbatim>\<open>deleteDeviceByIdentifiers\<close>
  answers 0 and the table after the call is the table before it: the statement executes
  normally (it returns as soon as the driver does not raise), and no result it can give
  reports another count or another table.
\<close>

theorem deleteDeviceByIdentifiers_no_match:
  assumes "\<forall>r \<in> set tbl. \<not> matches_identifiers d t u g r"
  shows "(dbf (DeleteByIdentifiers d t u g) = None
            \<longrightarrow> deleteDeviceByIdentifiers dbf d t u g tbl = Inr (0, tbl))
       \<and> (\<forall>n tbl'. deleteDeviceByIdentifiers dbf d t u g tbl = Inr (n, tbl')
            \<longrightarrow> n = 0 \<and> tbl' = tbl)"
proof -
  have "filter (matches_identifiers d t u g) tbl = []"
    using assms by (simp add: filter_empty_conv)
  moreover have "filter (\<lambda>r. \<not> matches_identifiers d t u g r) tbl = tbl"
    using assms by (simp add: filter_id_conv)
  ultimately show ?thesis by (simp add: deleteDeviceByIdentifiers_Inr)
qed

text \<open>
  Claim C8. In the richer variant every token that \<^verbatim>\<open>getTokensByUserId\<close> returns for a
  user is the token of a row of that user with \<^verbatim>\<open>active = true\<close>; tokens being unique in
  the table, the token of an inactive row is never among them.
\<close>

theorem getTokensByUserId_active_only:
  assumes "getTokensByUserId dbf u tbl = Inr ts"
  shows "(\<forall>t \<in> set ts. \<exists>r \<in> set tbl. fcm_token r = t \<and> user_id r = Some u \<and> active r)
       \<and> (distinct (map fcm_token tbl) \<longrightarrow> (\<forall>r \<in> set tbl. \<not> active r \<longrightarrow> fcm_token r \<notin> set ts))"
proof -
  from assms have ts: "ts = map fcm_token (filter (\<lambda>r. user_id r = Some u \<and> active r) tbl)"
    by (auto simp: getTokensByUserId_def split: option.splits)
  have a: "\<forall>t \<in> set ts. \<exists>r \<in> set tbl. fcm_token r = t \<and> user_id r = Some u \<and> active r"
    unfolding ts by auto
  have b: "fcm_token r \<notin> set ts"
    if d: "distinct (map fcm_token tbl)" and r: "r \<in> set tbl" "\<not> active r" for r
  proof
    assume "fcm_token r \<in> set ts"
    then obtain r' where r': "r' \<in> set tbl" "fcm_token r' = fcm_token r" "active r'"
      using a by blast
    then have "r' = r" using d r(1) by (meson distinct_map inj_onD)
    then show False using r(2) r'(3) by simp
  qed
  show ?thesis using a b by blast
qed

text \<open>
  Claim C5. \<^verbatim>\<open>upsertDevice\<close> is all or nothing in both variants, on a connection with no
  transaction open: whenever it raises, the session (committed table, no open
  transaction) is exactly the one before the call; and whenever one of its steps
  (connect, BEGIN, the DELETE of the other holder, the UPDATE that deactivates in the
  richer variant, the INSERT .. ON CONFLICT, COMMIT) raises, the call raises to its
  caller with the state unchanged.
\<close>

theorem upsert_all_or_nothing:
  assumes "pending s = None" and "pending sb = None"
  shows "(\<forall>e s'. upsertDevice dbf now d u g t p a s = (Inl e, s') \<longrightarrow> s' = s)
       \<and> (\<forall>q \<in> {Connect, Begin, DeleteOtherHolder t d, Deactivate d, InsertOnConflict d, Commit}.
            dbf q \<noteq> None \<longrightarrow> (\<exists>e. upsertDevice dbf now d u g t p a s = (Inl e, s)))
       \<and> (\<forall>e s'. upsertDevice_base dbfb now d ub t p a sb = (Inl e, s') \<longrightarrow> s' = sb)
       \<and> (\<forall>q \<in> {Connect, Begin, DeleteOtherHolder t d, InsertOnConflict d, Commit}.
            dbfb q \<noteq> None \<longrightarrow> (\<exists>e. upsertDevice_base dbfb now d ub t p a sb = (Inl e, sb)))"
proof (intro conjI allI impI ballI)
  fix e s' assume "upsertDevice dbf now d u g t p a s = (Inl e, s')"
  then show "s' = s" using assms(1) by (rule upsertDevice_Inl)
next
  fix e s' assume "upsertDevice_base dbfb now d ub t p a sb = (Inl e, s')"
  then show "s' = sb" using assms(2) by (rule upsertDevice_base_Inl)
next
  fix q assume "q \<in> {Connect, Begin, DeleteOtherHolder t d, Deactivate d, InsertOnConflict d, Commit}"
    "dbf q \<noteq> None"
  then obtain e s' where r: "upsertDevice dbf now d u g t p a s = (Inl e, s')"
    using upsertDevice_fault by blast
  then have "s' = s" using assms(1) by (rule upsertDevice_Inl)
  then show "\<exists>e. upsertDevice dbf now d u g t p a s = (Inl e, s)" using r by auto
next
  fix q assume "q \<in> {Connect, Begin, DeleteOtherHolder t d, InsertOnConflict d, Commit}"
    "dbfb q \<noteq> None"
  then obtain e s' where r: "upsertDevice_base dbfb now d ub t p a sb = (Inl e, s')"
    using upsertDevice_base_fault by blast
  then have "s' = sb" using assms(2) by (rule upsertDevice_base_Inl)
  then show "\<exists>e. upsertDevice_base dbfb now d ub t p a sb = (Inl e, sb)" using r by auto
qed



text \<open>The definitions unfolded when a statement is run on a concrete table.\<close>

lemmas db_eval =
  upsertDevice_def upsertDevice_try_def upsertDevice_base_def upsertDevice_base_try_def
  andThen_def client_begin_def client_commit_def client_query_def first_row_def
  sql_begin_def sql_commit_def sql_rollback_def current_def store_def
  delete_other_holder_def deactivate_def insert_on_conflict_def or_null_def
  getTokensByUserId_def getTokensByUserId_base_def deleteToken_def
  deleteDeviceByIdentifiers_def matches_identifiers_def getActiveTokensCount_def Let_def

theorem upsert_all_or_nothing_witness:
  "pending \<lparr>committed =
       [\<lparr>device_id = ''d1'', user_id = Some (7::int), fcm_token = ''tok-a'', platform = None,
         app_version = None, created_at = 1, updated_at = 1, game_id = Some 3, active = True\<rparr>],
       pending = None\<rparr> = None
   \<and> (\<exists>e. upsertDevice (\<lambda>q. if q = InsertOnConflict ''d2'' then Some ''boom'' else None)
              2 ''d2'' (Some 7) (Some 3) ''tok-a'' None None
              \<lparr>committed =
                 [\<lparr>device_id = ''d1'', user_id = Some 7, fcm_token = ''tok-a'', platform = None,
                   app_version = None, created_at = 1, updated_at = 1, game_id = Some 3,
                   active = True\<rparr>],
               pending = None\<rparr>
          = (Inl e,
             \<lparr>committed =
                 [\<lparr>device_id = ''d1'', user_id = Some 7, fcm_token = ''tok-a'', platform = None,
                   app_version = None, created_at = 1, updated_at = 1, game_id = Some 3,
                   active = True\<rparr>],
               pending = None\<rparr>))"
proof -
  let ?s = "\<lparr>committed =
       [\<lparr>device_id = ''d1'', user_id = Some (7::int), fcm_token = ''tok-a'', platform = None,
         app_version = None, created_at = 1, updated_at = 1, game_id = Some 3, active = True\<rparr>],
       pending = None\<rparr>"
  let ?sb = "\<lparr>committed = ([] :: string device_base list), pending = None\<rparr>"
  let ?dbf = "\<lambda>q::int stmt. if q = InsertOnConflict ''d2'' then Some ''boom'' else None"
  have h: "pending ?s = None" by simp
  have hb: "pending ?sb = None" by simp
  have q: "InsertOnConflict ''d2''
      \<in> {Connect, Begin, DeleteOtherHolder ''tok-a'' ''d2'', Deactivate ''d2'',
          InsertOnConflict ''d2'', Commit :: int stmt}" by simp
  have f: "?dbf (InsertOnConflict ''d2'') \<noteq> None" by simp
  have "\<forall>q \<in> {Connect, Begin, DeleteOtherHolder ''tok-a'' ''d2'', Deactivate ''d2'',
               InsertOnConflict ''d2'', Commit}.
          ?dbf q \<noteq> None \<longrightarrow>
          (\<exists>e. upsertDevice ?dbf 2 ''d2'' (Some 7) (Some 3) ''tok-a'' None None ?s = (Inl e, ?s))"
    by (rule conjunct1[OF conjunct2[OF upsert_all_or_nothing[OF h hb, where dbf="?dbf" and now=2
            and d="''d2''" and u="Some 7" and g="Some 3" and t="''tok-a''" and p=None and a=None]]])
  then have "\<exists>e. upsertDevice ?dbf 2 ''d2'' (Some 7) (Some 3) ''tok-a'' None None ?s = (Inl e, ?s)"
    using q f by blast
  then show ?thesis using h by blast
qed

theorem getTokensByUserId_active_only_witness:
  "getTokensByUserId (\<lambda>_. None) 7
     [\<lparr>device_id = ''d1'', user_id = Some 7, fcm_token = ''tok-a'', platform = None,
       app_version = None, created_at = 1, updated_at = 1, game_id = Some 3, active = True\<rparr>,
      \<lparr>device_id = ''d2'', user_id = Some 7, fcm_token = ''tok-b'', platform = None,
       app_version = None, created_at = 1, updated_at = 1, game_id = Some 3, active = False\<rparr>]
     = Inr [''tok-a'']
   \<and> ''tok-b'' \<notin> set [''tok-a'']"
proof -
  let ?a = "\<lparr>device_id = ''d1'', user_id = Some (7::int), fcm_token = ''tok-a'', platform = None,
       app_version = None, created_at = 1, updated_at = 1, game_id = Some 3, active = True\<rparr>"
  let ?b = "\<lparr>device_id = ''d2'', user_id = Some (7::int), fcm_token = ''tok-b'', platform = None,
       app_version = None, created_at = 1, updated_at = 1, game_id = Some 3, active = False\<rparr>"
  have run: "getTokensByUserId (\<lambda>_. None) 7 [?a, ?b] = Inr [''tok-a'']"
    by (simp add: getTokensByUserId_def)
  have d: "distinct (map fcm_token [?a, ?b])" by simp
  have m: "?b \<in> set [?a, ?b]" by simp
  have i: "\<not> active ?b" by simp
  have "distinct (map fcm_token [?a, ?b])
      \<longrightarrow> (\<forall>r \<in> set [?a, ?b]. \<not> active r \<longrightarrow> fcm_token r \<notin> set [''tok-a''])"
    by (rule conjunct2[OF getTokensByUserId_active_only[OF run]])
  then have "fcm_token ?b \<notin> set [''tok-a'']" using d m i by blast
  then have "''tok-b'' \<notin> set [''tok-a'']" by simp
  then show ?thesis using run by blast
qed

theorem deleteDeviceByIdentifiers_no_match_witness:
  "deleteDeviceByIdentifiers (\<lambda>_. None) ''d1'' ''tok-a'' 7 4
     [\<lparr>device_id = ''d1'', user_id = Some 7, fcm_token = ''tok-a'', platform = None,
       app_version = None, created_at = 1, updated_at = 1, game_id = Some 3, active = True\<rparr>]
   = Inr (0,
     [\<lparr>device_id = ''d1'', user_id = Some 7, fcm_token = ''tok-a'', platform = None,
       app_version = None, created_at = 1, updated_at = 1, game_id = Some 3, active = True\<rparr>])"
proof -
  let ?a = "\<lparr>device_id = ''d1'', user_id = Some (7::int), fcm_token = ''tok-a'', platform = None,
       app_version = None, created_at = 1, updated_at = 1, game_id = Some 3, active = True\<rparr>"
  have h: "\<forall>r \<in> set [?a]. \<not> matches_identifiers ''d1'' ''tok-a'' 7 4 r"
    by (simp add: matches_identifiers_def)
  have n: "(\<lambda>_::int stmt. None :: string option) (DeleteByIdentifiers ''d1'' ''tok-a'' 7 4) = None"
    by simp
  have "(\<lambda>_::int stmt. None :: string option) (DeleteByIdentifiers ''d1'' ''tok-a'' 7 4) = None
      \<longrightarrow> deleteDeviceByIdentifiers (\<lambda>_. None) ''d1'' ''tok-a'' 7 4 [?a] = Inr (0, [?a])"
    by (rule conjunct1[OF deleteDeviceByIdentifiers_no_match[OF h]])
  then show ?thesis using n by blast
qed

section \<open>Proofs: chunking and the multicast loop\<close>

lemma chunk_sizes_step:
  assumes "0 < sz" "0 < n"
  shows "replicate (n div sz) sz @ (if n mod sz = 0 then [] else [n mod sz])
       = min sz n # (replicate ((n - sz) div sz) sz @ (if (n - sz) mod sz = 0 then [] else [(n - sz) mod sz]))"
proof (cases "sz \<le> n")
  case True
  then have "n div sz = Suc ((n - sz) div sz)" "n mod sz = (n - sz) mod sz"
    using assms(1) by (simp_all add: le_div_geq le_mod_geq)
  then show ?thesis using True by simp
next
  case False
  then show ?thesis using assms by simp
qed

lemma chunk_from_total:
  assumes "0 < sz"
  shows "\<exists>cs. chunk_from arr sz i out = Some (out @ cs) \<and> concat cs = drop i arr
            \<and> map length cs = replicate ((length arr - i) div sz) sz
                 @ (if (length arr - i) mod sz = 0 then [] else [(length arr - i) mod sz])"
proof (induction "length arr - i" arbitrary: i out rule: less_induct)
  case less
  show ?case
  proof (cases "i < length arr")
    case False
    then show ?thesis
      by (subst chunk_from.simps) simp
  next
    case True
    let ?c = "slice arr i (i + sz)"
    have "length arr - (i + sz) < length arr - i" using True assms by simp
    from less[OF this, of "out @ [?c]"] obtain cs where
      cs: "chunk_from arr sz (i + sz) (out @ [?c]) = Some ((out @ [?c]) @ cs)"
        "concat cs = drop (i + sz) arr"
        "map length cs = replicate ((length arr - (i + sz)) div sz) sz
           @ (if (length arr - (i + sz)) mod sz = 0 then [] else [(length arr - (i + sz)) mod sz])"
      by blast
    have c: "?c = take sz (drop i arr)" by (simp add: slice_def)
    have 1: "chunk_from arr sz i out = Some (out @ (?c # cs))"
      using True cs(1) by (subst chunk_from.simps) simp
    have "drop (i + sz) arr = drop sz (drop i arr)" by (simp add: add.commute)
    then have 2: "concat (?c # cs) = drop i arr"
      using cs(2) c by (simp only: concat.simps append_take_drop_id)
    have len: "length ?c = min sz (length arr - i)" by (simp add: c)
    have n: "0 < length arr - i" using True by simp
    have 3: "map length (?c # cs) = replicate ((length arr - i) div sz) sz
                 @ (if (length arr - i) mod sz = 0 then [] else [(length arr - i) mod sz])"
      unfolding chunk_sizes_step[OF assms n] list.map len cs(3) by (simp only: diff_diff_left)
    show ?thesis using 1 2 3 by blast
  qed
qed

lemma chunk_total:
  assumes "0 < sz"
  shows "\<exists>cs. chunk arr sz = Some cs \<and> concat cs = arr
            \<and> map length cs = replicate (length arr div sz) sz
                 @ (if length arr mod sz = 0 then [] else [length arr mod sz])"
  using chunk_from_total[OF assms, of arr 0 "[]"]
  unfolding chunk_def by (simp only: append_Nil drop_0 diff_zero)



lemma chunk_single: "0 < length arr \<Longrightarrow> length arr \<le> sz \<Longrightarrow> chunk arr sz = Some [arr]"
  unfolding chunk_def
  apply (subst chunk_from.simps, simp)
  apply (subst chunk_from.simps, simp add: slice_def)
  done

lemma batches_simps:
  "batches [] = []"
  "batches (Multicast m part r # evs) = part # batches evs"
  "batches (Query q # evs) = batches evs"
  "batches (SendOne m' tok r' # evs) = batches evs"
  "batches (ConsoleError l # evs) = batches evs"
  "batches (ConsoleLog l # evs) = batches evs"
  "batches (xs @ ys) = batches xs @ batches ys"
  by (simp_all add: batches_def List.map_filter_def)

lemma pages_fetched_simps:
  "pages_fetched [] = []"
  "pages_fetched (Multicast m part r # evs) = pages_fetched evs"
  "pages_fetched (Query (SelectActivePage l off) # evs) = (l, off) # pages_fetched evs"
  "pages_fetched (Query SelectActiveCount # evs) = pages_fetched evs"
  "pages_fetched (Query (DeleteByToken t) # evs) = pages_fetched evs"
  "pages_fetched (Query (SelectTokensByUser u) # evs) = pages_fetched evs"
  "pages_fetched (xs @ ys) = pages_fetched xs @ pages_fetched ys"
  by (simp_all add: pages_fetched_def List.map_filter_def)

lemma events_emit: "events (emit ev w) = events w @ [ev]"
  "registry (emit ev w) = registry w" "provider (emit ev w) = provider w"
  by (simp_all add: emit_def)

lemma multicast_loop_Inr:
  assumes "multicast_loop send msg cs (s0, f0, d0) w = (Inr (s, f, d), w')"
  shows "\<exists>new. events w' = events w @ new \<and> registry w' = registry w
           \<and> batches new = cs \<and> (\<forall>x \<in> set new. \<not> raised x) \<and> pages_fetched new = []
           \<and> s + f = s0 + f0 + sum_list (map counted new)
           \<and> d = d0 @ concat (map reported_dead new)
           \<and> ((\<forall>p m ts r p'. send p m ts = (Inr r, p') \<longrightarrow> successCount r + failureCount r = length ts)
                \<longrightarrow> sum_list (map counted new) = length (concat cs))"
  using assms
proof (induction cs arbitrary: s0 f0 d0 w)
  case Nil
  then show ?case by (simp add: batches_simps pages_fetched_simps)
next
  case (Cons part rest)
  from Cons.prems obtain resp p' where
    snd: "send (provider w) msg part = (Inr resp, p')"
    and rec: "multicast_loop send msg rest
            (s0 + successCount resp, f0 + failureCount resp, d0 @ dead_of_batch part (responses resp))
            (emit (Multicast msg part (Inr resp)) (w\<lparr>provider := p'\<rparr>)) = (Inr (s, f, d), w')"
    by (auto split: prod.splits sum.splits)
  from Cons.IH[OF rec] obtain new where
    new: "events w' = events (emit (Multicast msg part (Inr resp)) (w\<lparr>provider := p'\<rparr>)) @ new"
      "registry w' = registry (emit (Multicast msg part (Inr resp)) (w\<lparr>provider := p'\<rparr>))"
      "batches new = rest" "\<forall>x \<in> set new. \<not> raised x" "pages_fetched new = []"
      "s + f = (s0 + successCount resp) + (f0 + failureCount resp) + sum_list (map counted new)"
      "d = (d0 @ dead_of_batch part (responses resp)) @ concat (map reported_dead new)"
      "(\<forall>p m ts r p'. send p m ts = (Inr r, p') \<longrightarrow> successCount r + failureCount r = length ts)
                \<longrightarrow> sum_list (map counted new) = length (concat rest)"
    by blast
  let ?new = "Multicast msg part (Inr resp) # new"
  have "events w' = events w @ ?new" using new(1) by (simp add: events_emit)
  moreover have "registry w' = registry w" using new(2) by (simp add: events_emit)
  moreover have "batches ?new = part # rest" using new(3) by (simp add: batches_simps)
  moreover have "\<forall>x \<in> set ?new. \<not> raised x" using new(4) by simp
  moreover have "pages_fetched ?new = []" using new(5) by (simp add: pages_fetched_simps)
  moreover have "s + f = s0 + f0 + sum_list (map counted ?new)" using new(6) by simp
  moreover have "d = d0 @ concat (map reported_dead ?new)" using new(7) by simp
  moreover have "(\<forall>p m ts r p'. send p m ts = (Inr r, p') \<longrightarrow> successCount r + failureCount r = length ts)
                \<longrightarrow> sum_list (map counted ?new) = length (concat (part # rest))"
  proof
    assume wf: "\<forall>p m ts r p'. send p m ts = (Inr r, p') \<longrightarrow> successCount r + failureCount r = length ts"
    then have "successCount resp + failureCount resp = length part" using snd by blast
    moreover have "sum_list (map counted new) = length (concat rest)" using new(8) wf by blast
    ultimately show "sum_list (map counted ?new) = length (concat (part # rest))" by simp
  qed
  ultimately show ?case by blast
qed

lemma multicast_loop_Inl:
  assumes "multicast_loop send msg cs acc w = (Inl e, w')"
  shows "\<exists>new. events w' = events w @ new \<and> registry w' = registry w
           \<and> prefix (batches new) cs \<and> (\<exists>x \<in> set new. raised x) \<and> pages_fetched new = []"
  using assms
proof (induction cs arbitrary: acc w)
  case Nil
  then show ?case by simp
next
  case (Cons part rest)
  obtain s0 f0 d0 where acc: "acc = (s0, f0, d0)" by (cases acc) auto
  obtain r p' where snd: "send (provider w) msg part = (r, p')" by (cases "send (provider w) msg part") auto
  show ?case
  proof (cases r)
    case (Inl e')
    then have "w' = emit (Multicast msg part (Inl e)) (w\<lparr>provider := p'\<rparr>)"
      using Cons.prems acc snd by auto
    then have "events w' = events w @ [Multicast msg part (Inl e)]" "registry w' = registry w"
      by (simp_all add: events_emit)
    then show ?thesis by (intro exI[of _ "[Multicast msg part (Inl e)]"]) (simp add: batches_simps pages_fetched_simps)
  next
    case (Inr resp)
    then have rec: "multicast_loop send msg rest
            (s0 + successCount resp, f0 + failureCount resp, d0 @ dead_of_batch part (responses resp))
            (emit (Multicast msg part (Inr resp)) (w\<lparr>provider := p'\<rparr>)) = (Inl e, w')"
      using Cons.prems acc snd by simp
    from Cons.IH[OF rec] obtain new where
      new: "events w' = events (emit (Multicast msg part (Inr resp)) (w\<lparr>provider := p'\<rparr>)) @ new"
        "registry w' = registry (emit (Multicast msg part (Inr resp)) (w\<lparr>provider := p'\<rparr>))"
        "prefix (batches new) rest" "\<exists>x \<in> set new. raised x" "pages_fetched new = []"
      by blast
    let ?new = "Multicast msg part (Inr resp) # new"
    have "events w' = events w @ ?new" using new(1) by (simp add: events_emit)
    moreover have "registry w' = registry w" using new(2) by (simp add: events_emit)
    moreover have "prefix (batches ?new) (part # rest)" using new(3) by (simp add: batches_simps)
    moreover have "\<exists>x \<in> set ?new. raised x" using new(4) by simp
    moreover have "pages_fetched ?new = []" using new(5) by (simp add: pages_fetched_simps)
    ultimately show ?thesis by blast
  qed
qed


lemma observed_deletes:
  "batches (map (\<lambda>t. Query (DeleteByToken t)) ts) = []"
  "pages_fetched (map (\<lambda>t. Query (DeleteByToken t)) ts) = []"
  "\<forall>x \<in> set (map (\<lambda>t. Query (DeleteByToken t)) ts). \<not> raised x"
  "sum_list (map counted (map (\<lambda>t. Query (DeleteByToken t)) ts)) = 0"
  "concat (map reported_dead (map (\<lambda>t. Query (DeleteByToken t)) ts)) = []"
  by (induction ts) (simp_all add: batches_simps pages_fetched_simps)

lemma delete_all_run:
  assumes "delete_all dbf ts w = (r, w')"
  shows "events w' = events w @ map (\<lambda>t. Query (DeleteByToken t)) ts \<and> provider w' = provider w
       \<and> set (registry w') \<subseteq> set (registry w)
       \<and> (r = None \<longrightarrow> registry w' = filter (\<lambda>x. Some (fcm_token x) \<notin> set ts) (registry w))"
  using assms
proof (induction ts arbitrary: w r w')
  case Nil
  then show ?case by simp
next
  case (Cons t ts)
  show ?case
  proof (cases "deleteToken dbf t (registry w)")
    case (Inl e)
    obtain r2 w2 where in2: "delete_all dbf ts (emit (Query (DeleteByToken t)) w) = (r2, w2)"
      by (cases "delete_all dbf ts (emit (Query (DeleteByToken t)) w)") auto
    then have "r = Some e" "w' = w2" using Cons.prems Inl by simp_all
    then show ?thesis using Cons.IH[OF in2] by (simp add: events_emit)
  next
    case (Inr tbl)
    then have tbl: "tbl = filter (\<lambda>x. Some (fcm_token x) \<noteq> t) (registry w)"
      by (simp add: deleteToken_Inr)
    have in2: "delete_all dbf ts (emit (Query (DeleteByToken t)) (w\<lparr>registry := tbl\<rparr>)) = (r, w')"
      using Cons.prems Inr by simp
    have "filter (\<lambda>x. Some (fcm_token x) \<notin> set ts) tbl
        = filter (\<lambda>x. Some (fcm_token x) \<notin> set (t # ts)) (registry w)"
      unfolding tbl by (auto intro: filter_cong)
    then show ?thesis using Cons.IH[OF in2] tbl by (auto simp: events_emit)
  qed
qed

lemma dispatch_user_run:
  assumes "dispatch_user err send dbf msg cs w = (resp, w')"
  shows "\<exists>new. events w' = events w @ new \<and> prefix (batches new) cs \<and> pages_fetched new = []
       \<and> set (registry w') \<subseteq> set (registry w)
       \<and> ((\<forall>x \<in> set new. \<not> raised x) \<longrightarrow> batches new = cs
            \<and> ((\<forall>p m ts r p'. send p m ts = (Inr r, p') \<longrightarrow> successCount r + failureCount r = length ts)
                 \<longrightarrow> sum_list (map counted new) = length (concat cs)))
       \<and> ((\<exists>e. resp = err e)
          \<or> (\<exists>sent failed. resp = (200, [(''ok'', JBool True), (''sent'', JNum (int sent)),
                       (''failed'', JNum (int failed)),
                       (''removedDead'', JNum (int (length (concat (map reported_dead new)))))])
               \<and> sent + failed = sum_list (map counted new) \<and> (\<forall>x \<in> set new. \<not> raised x)
               \<and> registry w' = filter (\<lambda>x. Some (fcm_token x) \<notin> set (concat (map reported_dead new)))
                                  (registry w)))"
proof (cases "multicast_loop send msg cs (0, 0, []) w")
  case (Pair r w1)
  show ?thesis
  proof (cases r)
    case (Inl e)
    then have out: "resp = err e" "w' = w1" using assms Pair by (simp_all add: dispatch_user_def)
    from multicast_loop_Inl[of send msg cs "(0, 0, [])" w e w1] Pair Inl obtain new where
      "events w1 = events w @ new" "registry w1 = registry w" "prefix (batches new) cs"
      "\<exists>x \<in> set new. raised x" "pages_fetched new = []"
      by auto
    then show ?thesis using out by (intro exI[of _ new]) auto
  next
    case (Inr acc)
    obtain sent failed dead where acc: "acc = (sent, failed, dead)" by (cases acc) auto
    have run: "multicast_loop send msg cs (0, 0, []) w = (Inr (sent, failed, dead), w1)"
      using Pair Inr acc by simp
    from multicast_loop_Inr[OF run] obtain new where
      new: "events w1 = events w @ new" "registry w1 = registry w" "batches new = cs"
        "\<forall>x \<in> set new. \<not> raised x" "pages_fetched new = []"
        "sent + failed = sum_list (map counted new)" "dead = concat (map reported_dead new)"
        "(\<forall>p m ts r p'. send p m ts = (Inr r, p') \<longrightarrow> successCount r + failureCount r = length ts)
                \<longrightarrow> sum_list (map counted new) = length (concat cs)"
      unfolding add_0 append_Nil by blast
    obtain r2 w2 where del: "delete_all dbf dead w1 = (r2, w2)" by (cases "delete_all dbf dead w1") auto
    note d = delete_all_run[OF del]
    let ?dels = "map (\<lambda>t. Query (DeleteByToken t)) dead"
    let ?all = "new @ ?dels"
    have w': "w' = w2" using assms Pair Inr acc del by (auto simp: dispatch_user_def split: option.splits)
    have e: "events w' = events w @ ?all" using d new(1) w' by simp
    have b: "batches ?all = cs" using new(3) by (simp add: batches_simps observed_deletes)
    have p: "pages_fetched ?all = []" using new(5) by (simp add: pages_fetched_simps observed_deletes)
    have nr: "\<forall>x \<in> set ?all. \<not> raised x" using new(4) observed_deletes(3)[of dead] by auto
    have c: "sum_list (map counted ?all) = sum_list (map counted new)"
      using observed_deletes(4)[of dead] by simp
    have rd: "concat (map reported_dead ?all) = dead"
      using observed_deletes(5)[of dead] new(7) by simp
    have sub: "set (registry w') \<subseteq> set (registry w)" using d new(2) w' by simp
    have res: "(\<exists>e. resp = err e)
          \<or> (\<exists>sent failed. resp = (200, [(''ok'', JBool True), (''sent'', JNum (int sent)),
                       (''failed'', JNum (int failed)),
                       (''removedDead'', JNum (int (length (concat (map reported_dead ?all)))))])
               \<and> sent + failed = sum_list (map counted ?all) \<and> (\<forall>x \<in> set ?all. \<not> raised x)
               \<and> registry w' = filter (\<lambda>x. Some (fcm_token x) \<notin> set (concat (map reported_dead ?all)))
                                  (registry w))"
    proof (cases r2)
      case None
      then have "resp = (200, [(''ok'', JBool True), (''sent'', JNum (int sent)),
                       (''failed'', JNum (int failed)),
                       (''removedDead'', JNum (int (length dead)))])"
        using assms Pair Inr acc del by (simp add: dispatch_user_def)
      moreover have "registry w' = filter (\<lambda>x. Some (fcm_token x) \<notin> set dead) (registry w)"
        using d None new(2) w' by simp
      ultimately show ?thesis using nr new(6) unfolding c rd by blast
    next
      case (Some e)
      then have "resp = err e" using assms Pair Inr acc del by (simp add: dispatch_user_def)
      then show ?thesis by blast
    qed
    have pre: "prefix (batches ?all) cs" using b by simp
    have imp: "(\<forall>x \<in> set ?all. \<not> raised x) \<longrightarrow> batches ?all = cs
            \<and> ((\<forall>p m ts r p'. send p m ts = (Inr r, p') \<longrightarrow> successCount r + failureCount r = length ts)
                 \<longrightarrow> sum_list (map counted ?all) = length (concat cs))"
      using b c new(8) by simp
    show ?thesis
      by (intro exI[of _ ?all] conjI) (rule e pre p sub imp res)+
  qed
qed


lemma push_user_valid:
  assumes "u \<noteq> 0" "ti \<noteq> []" "bo \<noteq> []"
    and "getTokensByUserId dbf u (registry w) = Inr tokens"
  shows "push_user send dbf (Some u) (Some ti) (Some bo) data img w =
           (if tokens = [] then Some (no_tokens_response, emit (Query (SelectTokensByUser u)) w)
            else map_option
                   (\<lambda>chunks. dispatch_user (sendError 500) send dbf
                      \<lparr>m_notification = Some (notification_of ''imageUrl'' ti bo img),
                       m_data = data, m_android = None\<rparr>
                      chunks (emit (Query (SelectTokensByUser u)) w))
                   (chunk tokens 500))"
  using assms by (simp add: push_user_def or_null_def)

lemma push_user_base_valid:
  assumes "u \<noteq> []" "ti \<noteq> []" "bo \<noteq> []"
    and "getTokensByUserId_base dbf u (registry w) = Inr tokens"
  shows "push_user_base send dbf (Some u) (Some ti) (Some bo) data img w =
           (if tokens = [] then Some (no_tokens_response, emit (Query (SelectTokensByUser u)) w)
            else map_option
                   (\<lambda>chunks. dispatch_user server_error_base send dbf
                      \<lparr>m_notification = Some (notification_of ''image'' ti bo img),
                       m_data = data, m_android = None\<rparr>
                      chunks (emit (Query (SelectTokensByUser u)) w))
                   (chunk tokens 500))"
  using assms by (simp add: push_user_base_def or_null_def)

text \<open>
  Claim C10. A POST /push/user request that passes validation and whose user has no
  token is answered, in both servers, with status 200 and the body
  \<^verbatim>\<open>{ok: true, sent: 0, info: 'No tokens for user'}\<close>, which has neither a \<^verbatim>\<open>failed\<close> nor
  a \<^verbatim>\<open>removedDead\<close> field; the only effect is the token lookup: no provider call is
  made, and the registry and the provider are as before.
\<close>

theorem push_user_no_tokens:
  assumes "u \<noteq> 0" "ub \<noteq> []" "ti \<noteq> []" "bo \<noteq> []"
    and "getTokensByUserId dbf u (registry w) = Inr []"
    and "getTokensByUserId_base dbfb ub (registry wb) = Inr []"
  shows "push_user send dbf (Some u) (Some ti) (Some bo) data img w
           = Some ((200, [(''ok'', JBool True), (''sent'', JNum 0),
                          (''info'', JStr ''No tokens for user'')]),
                   w\<lparr>events := events w @ [Query (SelectTokensByUser u)]\<rparr>)
       \<and> push_user_base sendb dbfb (Some ub) (Some ti) (Some bo) data img wb
           = Some ((200, [(''ok'', JBool True), (''sent'', JNum 0),
                          (''info'', JStr ''No tokens for user'')]),
                   wb\<lparr>events := events wb @ [Query (SelectTokensByUser ub)]\<rparr>)
       \<and> map_of [(''ok'', JBool True), (''sent'', JNum 0),
                  (''info'', JStr ''No tokens for user'')] ''failed'' = None
       \<and> map_of [(''ok'', JBool True), (''sent'', JNum 0),
                  (''info'', JStr ''No tokens for user'')] ''removedDead'' = None"
  using assms
  by (simp add: push_user_valid push_user_base_valid no_tokens_response_def emit_def)

theorem push_user_no_tokens_witness:
  "push_user (\<lambda>p m ts. (Inr \<lparr>responses = [], successCount = length ts, failureCount = 0\<rparr>, p))
       (\<lambda>_. None) (Some 7) (Some ''Hi'') (Some ''there'') None None
       \<lparr>registry = [], provider = (), events = []\<rparr>
     = Some ((200, [(''ok'', JBool True), (''sent'', JNum 0), (''info'', JStr ''No tokens for user'')]),
             \<lparr>registry = [], provider = (), events = [Query (SelectTokensByUser 7)]\<rparr>)"
proof -
  let ?w = "\<lparr>registry = ([] :: int device list), provider = (), events = ([] :: int event list)\<rparr>"
  let ?wb = "\<lparr>registry = ([] :: string device_base list), provider = (),
              events = ([] :: string event list)\<rparr>"
  have l: "getTokensByUserId (\<lambda>_. None) 7 (registry ?w) = Inr []"
    by (simp add: getTokensByUserId_def)
  have lb: "getTokensByUserId_base (\<lambda>_. None) ''u7'' (registry ?wb) = Inr []"
    by (simp add: getTokensByUserId_base_def)
  have "push_user (\<lambda>p m ts. (Inr \<lparr>responses = [], successCount = length ts, failureCount = 0\<rparr>, p))
       (\<lambda>_. None) (Some 7) (Some ''Hi'') (Some ''there'') None None ?w
     = Some ((200, [(''ok'', JBool True), (''sent'', JNum 0), (''info'', JStr ''No tokens for user'')]),
             ?w\<lparr>events := events ?w @ [Query (SelectTokensByUser 7)]\<rparr>)"
    by (rule conjunct1[OF push_user_no_tokens[of 7 "''u7''" "''Hi''" "''there''" "\<lambda>_. None" ?w
            "\<lambda>_. None" ?wb, OF _ _ _ _ l lb]]) simp_all
  then show ?thesis by simp
qed

section \<open>Proofs: registration\<close>

lemma client_query_ok:
  "dbf q = None \<Longrightarrow> f (current s) = Inr (t, a) \<Longrightarrow> client_query dbf q f s = (Inr a, store t s)"
  by (simp add: client_query_def)

lemma insert_after_delete:
  assumes "\<forall>r \<in> set tbl. fcm_token r = fcm_token new \<longrightarrow> device_id r = device_id new"
  shows "\<exists>t3 rows. insert_on_conflict new upd tbl = Inr (t3, rows)"
proof -
  have "\<not> (\<exists>r \<in> set tbl. fcm_token r = fcm_token new \<and> device_id r \<noteq> device_id new)"
    using assms by blast
  then show ?thesis unfolding insert_on_conflict_def Let_def by (simp only: if_False) blast
qed


lemma upsertDevice_base_no_fault:
  assumes nf: "\<forall>q. dbf q = None" and idle: "pending s = None"
  shows "\<exists>res s'. upsertDevice_base dbf now d u t p a s = (Inr res, s')"
proof -
  let ?t1 = "filter (\<lambda>r. \<not> (fcm_token r = t \<and> device_id r \<noteq> d)) (committed s)"
  let ?new = "\<lparr>device_id = d, user_id = or_null u, fcm_token = t,
                    platform = or_null p, app_version = or_null a,
                    created_at = now, updated_at = now\<rparr>"
  let ?upd = "\<lambda>r::string device_base. r\<lparr>user_id := or_null u, fcm_token := t,
                          platform := or_null p, app_version := or_null a,
                          updated_at := now\<rparr>"
  let ?s1 = "sql_begin s"
  let ?s2 = "store ?t1 ?s1"
  have "\<forall>r \<in> set ?t1. fcm_token r = fcm_token ?new \<longrightarrow> device_id r = device_id ?new"
    by simp
  then obtain t3 rows where ins: "insert_on_conflict ?new ?upd ?t1 = Inr (t3, rows)"
    using insert_after_delete[of ?t1 ?new ?upd] by blast
  have "rows \<noteq> []" using insert_on_conflict_rows[OF ins] by simp
  then obtain r rs where rows: "rows = r # rs" by (cases rows) auto
  let ?s3 = "store t3 ?s2"
  have c1: "current ?s1 = committed s" using idle by (simp add: current_def sql_begin_def)
  have c2: "current ?s2 = ?t1" by (simp add: current_def sql_begin_def store_def)
  have b: "client_begin dbf s = (Inr (), ?s1)" using nf by (simp add: client_begin_def)
  have q1: "client_query dbf (DeleteOtherHolder t d) (delete_other_holder t d) ?s1 = (Inr (), ?s2)"
    using nf c1 by (intro client_query_ok) (simp_all add: delete_other_holder_def)
  have q2: "client_query dbf (InsertOnConflict d) (insert_on_conflict ?new ?upd) ?s2 = (Inr rows, ?s3)"
    using nf c2 ins by (intro client_query_ok) simp_all
  have c: "client_commit dbf ?s3 = (Inr (), sql_commit ?s3)" using nf by (simp add: client_commit_def)
  have f: "first_row rows (sql_commit ?s3)
             = (Inr (device_id r, user_id r, fcm_token r), sql_commit ?s3)"
    using rows by (simp add: first_row_def)
  have "upsertDevice_base_try dbf now d u t p a s
          = (Inr (device_id r, user_id r, fcm_token r), sql_commit ?s3)"
    unfolding upsertDevice_base_try_def andThen_def
    by (simp only: b q1 q2 c f prod.case sum.case)
  then show ?thesis using nf by (simp add: upsertDevice_base_def)
qed


lemma upsertDevice_no_fault:
  assumes nf: "\<forall>q. dbf q = None" and idle: "pending s = None"
  shows "\<exists>res s'. upsertDevice dbf now d u g t p a s = (Inr res, s')"
proof -
  let ?t1 = "filter (\<lambda>r. \<not> (fcm_token r = t \<and> device_id r \<noteq> d)) (committed s)"
  let ?t2 = "map (\<lambda>r. if device_id r = d then r\<lparr>active := False\<rparr> else r) ?t1"
  let ?new = "\<lparr>device_id = d, user_id = u, fcm_token = t,
                    platform = or_null p, app_version = or_null a,
                    created_at = now, updated_at = now, game_id = g, active = True\<rparr>"
  let ?upd = "\<lambda>r::int device. r\<lparr>user_id := u, game_id := g, fcm_token := t,
                          platform := or_null p, app_version := or_null a,
                          active := True, updated_at := now\<rparr>"
  let ?s1 = "sql_begin s"
  let ?s2 = "store ?t1 ?s1"
  let ?s2' = "store ?t2 ?s2"
  have "\<forall>r \<in> set ?t2. fcm_token r = fcm_token ?new \<longrightarrow> device_id r = device_id ?new"
    by auto
  then obtain t3 rows where ins: "insert_on_conflict ?new ?upd ?t2 = Inr (t3, rows)"
    using insert_after_delete[of ?t2 ?new ?upd] by blast
  have "rows \<noteq> []" using insert_on_conflict_rows[OF ins] by simp
  then obtain r rs where rows: "rows = r # rs" by (cases rows) auto
  let ?s3 = "store t3 ?s2'"
  have c1: "current ?s1 = committed s" using idle by (simp add: current_def sql_begin_def)
  have c2: "current ?s2 = ?t1" by (simp add: current_def sql_begin_def store_def)
  have c2': "current ?s2' = ?t2" by (simp add: current_def sql_begin_def store_def)
  have b: "client_begin dbf s = (Inr (), ?s1)" using nf by (simp add: client_begin_def)
  have q1: "client_query dbf (DeleteOtherHolder t d) (delete_other_holder t d) ?s1 = (Inr (), ?s2)"
    using nf c1 by (intro client_query_ok) (simp_all add: delete_other_holder_def)
  have q1': "client_query dbf (Deactivate d) (deactivate d) ?s2 = (Inr (), ?s2')"
    using nf c2 by (intro client_query_ok) (simp_all add: deactivate_def)
  have q2: "client_query dbf (InsertOnConflict d) (insert_on_conflict ?new ?upd) ?s2' = (Inr rows, ?s3)"
    using nf c2' ins by (intro client_query_ok) simp_all
  have c: "client_commit dbf ?s3 = (Inr (), sql_commit ?s3)" using nf by (simp add: client_commit_def)
  have f: "first_row rows (sql_commit ?s3)
             = (Inr (device_id r, user_id r, fcm_token r), sql_commit ?s3)"
    using rows by (simp add: first_row_def)
  have "upsertDevice_try dbf now d u g t p a s
          = (Inr (device_id r, user_id r, fcm_token r), sql_commit ?s3)"
    unfolding upsertDevice_try_def andThen_def
    by (simp only: b q1 q1' q2 c f prod.case sum.case)
  then show ?thesis using nf by (simp add: upsertDevice_def)
qed

lemma upsertDevice_base_owner:
  assumes "upsertDevice_base dbf now d u t p a s = (Inr res, s')"
  shows "\<forall>r \<in> set (committed s'). device_id r = d \<longrightarrow> user_id r = or_null u"
proof -
  from assms have "upsertDevice_base_try dbf now d u t p a s = (Inr res, s')"
    by (simp add: upsertDevice_base_Inr)
  from upsertDevice_base_try_Inr[OF this] obtain t1 t3 rows where
    ins: "insert_on_conflict
                   \<lparr>device_id = d, user_id = or_null u, fcm_token = t,
                    platform = or_null p, app_version = or_null a,
                    created_at = now, updated_at = now\<rparr>
                   (\<lambda>r. r\<lparr>user_id := or_null u, fcm_token := t,
                          platform := or_null p, app_version := or_null a,
                          updated_at := now\<rparr>) t1 = Inr (t3, rows)"
    and s': "s' = \<lparr>committed = t3, pending = None\<rparr>"
    by blast
  have "\<forall>x \<in> set t3. device_id x = d \<longrightarrow> user_id x = or_null u"
    using ins by (auto simp: insert_on_conflict_Inr split: if_splits)
  then show ?thesis using s' by simp
qed

text \<open>
  What the two registration handlers require. The base server requires \<^verbatim>\<open>deviceId\<close> and
  \<^verbatim>\<open>fcmToken\<close> (non-empty): a request without \<^verbatim>\<open>userId\<close> is accepted when the database
  does not raise, the device is stored with no owner, and no user lookup returns its
  token. The richer server tests \<^verbatim>\<open>deviceId\<close>, \<^verbatim>\<open>fcmToken\<close>, \<^verbatim>\<open>userId\<close> and \<^verbatim>\<open>gameId\<close>: a
  request that lacks one of them is answered 400 and the table is untouched; with the
  four of them it is accepted.
\<close>

lemma register_guards:
  assumes inv: "registry_inv tblb"
  shows "(or_null deviceId = Some d \<and> or_null fcmToken = Some t \<and> (\<forall>q. dbfb q = None) \<longrightarrow>
            (\<exists>tbl'. register_device_base dbfb now deviceId None fcmToken platf appVersion tblb
                      = ((200, [(''ok'', JBool True), (''deviceId'', JStr d), (''userId'', JNull),
                                (''fcmToken'', JStr t)]), tbl')
                   \<and> d \<in> device_id ` set tbl'
                   \<and> (\<forall>r \<in> set tbl'. device_id r = d \<longrightarrow> user_id r = None \<and> fcm_token r = t)
                   \<and> (\<forall>dbf' u ts. getTokensByUserId_base dbf' u tbl' = Inr ts \<longrightarrow> t \<notin> set ts)))
       \<and> (deviceId = None \<or> fcmToken = None \<or> userId = None \<or> gameId = None \<longrightarrow>
            (\<exists>msg. register_device dbf now deviceId userId gameId fcmToken platf appVersion tbl
                      = ((400, [(''ok'', JBool False), (''message'', JStr msg)]), tbl)))
       \<and> (deviceId = Some d \<and> fcmToken = Some t \<and> userId = Some u \<and> gameId = Some g
            \<and> (\<forall>q. dbf q = None) \<longrightarrow>
            (\<exists>tbl'. register_device dbf now deviceId userId gameId fcmToken platf appVersion tbl
                      = ((200, [(''ok'', JBool True), (''deviceId'', JStr d),
                                (''userId'', JDecimal u), (''fcmToken'', JStr t)]), tbl')))"
proof (intro conjI impI)
  assume a: "or_null deviceId = Some d \<and> or_null fcmToken = Some t \<and> (\<forall>q. dbfb q = None)"
  let ?s = "\<lparr>committed = tblb, pending = None\<rparr>"
  obtain res s' where run: "upsertDevice_base dbfb now d None t platf appVersion ?s = (Inr res, s')"
    using upsertDevice_base_no_fault[of dbfb ?s now d None t platf appVersion] a by auto
  note ok = upsertDevice_base_success[OF _ _ run]
  have res: "res = (d, None, t)" using ok inv by (simp add: or_null_def)
  have own: "\<forall>r \<in> set (committed s'). device_id r = d \<longrightarrow> user_id r = None"
    using upsertDevice_base_owner[OF run] by (simp add: or_null_def)
  have tok: "\<forall>r \<in> set (committed s'). fcm_token r = t \<longleftrightarrow> device_id r = d"
    using ok inv by simp
  have one: "length (filter (\<lambda>r. device_id r = d) (committed s')) = 1" using ok inv by simp
  have mem: "d \<in> device_id ` set (committed s')"
  proof -
    from one obtain r where "filter (\<lambda>r. device_id r = d) (committed s') = [r]"
      by (cases "filter (\<lambda>r. device_id r = d) (committed s')") auto
    then have "r \<in> set (filter (\<lambda>r. device_id r = d) (committed s'))" by simp
    then show ?thesis by auto
  qed
  have unreach: "t \<notin> set ts" if look: "getTokensByUserId_base dbf' u' (committed s') = Inr ts" for dbf' u' ts
  proof
    assume "t \<in> set ts"
    moreover have "ts = map fcm_token (filter (\<lambda>r. user_id r = Some u') (committed s'))"
      using look by (auto simp: getTokensByUserId_base_def split: option.splits)
    ultimately have "\<exists>r \<in> set (committed s'). fcm_token r = t \<and> user_id r = Some u'" by auto
    then show False using own tok by auto
  qed
  have eq: "register_device_base dbfb now deviceId None fcmToken platf appVersion tblb
          = ((200, [(''ok'', JBool True), (''deviceId'', JStr d), (''userId'', JNull),
                    (''fcmToken'', JStr t)]), committed s')"
    using a run res by (simp add: register_device_base_def)
  show "\<exists>tbl'. register_device_base dbfb now deviceId None fcmToken platf appVersion tblb
                      = ((200, [(''ok'', JBool True), (''deviceId'', JStr d), (''userId'', JNull),
                                (''fcmToken'', JStr t)]), tbl')
                   \<and> d \<in> device_id ` set tbl'
                   \<and> (\<forall>r \<in> set tbl'. device_id r = d \<longrightarrow> user_id r = None \<and> fcm_token r = t)
                   \<and> (\<forall>dbf' u ts. getTokensByUserId_base dbf' u tbl' = Inr ts \<longrightarrow> t \<notin> set ts)"
  proof (intro exI[of _ "committed s'"] conjI)
    show "register_device_base dbfb now deviceId None fcmToken platf appVersion tblb
          = ((200, [(''ok'', JBool True), (''deviceId'', JStr d), (''userId'', JNull),
                    (''fcmToken'', JStr t)]), committed s')" by (rule eq)
    show "d \<in> device_id ` set (committed s')" by (rule mem)
    show "\<forall>r \<in> set (committed s'). device_id r = d \<longrightarrow> user_id r = None \<and> fcm_token r = t"
      using own tok by blast
    show "\<forall>dbf' u ts. getTokensByUserId_base dbf' u (committed s') = Inr ts \<longrightarrow> t \<notin> set ts"
      using unreach by blast
  qed
next
  assume "deviceId = None \<or> fcmToken = None \<or> userId = None \<or> gameId = None"
  then show "\<exists>msg. register_device dbf now deviceId userId gameId fcmToken platf appVersion tbl
                      = ((400, [(''ok'', JBool False), (''message'', JStr msg)]), tbl)"
    by (cases deviceId; cases fcmToken; cases userId; cases gameId)
       (simp_all add: register_device_def sendError_def)
next
  assume a: "deviceId = Some d \<and> fcmToken = Some t \<and> userId = Some u \<and> gameId = Some g
            \<and> (\<forall>q. dbf q = None)"
  let ?s = "\<lparr>committed = tbl, pending = None\<rparr>"
  obtain res s' where run: "upsertDevice dbf now d (Some u) (Some g) t platf appVersion ?s = (Inr res, s')"
    using upsertDevice_no_fault[of dbf ?s now d "Some u" "Some g" t platf appVersion] a by auto
  from run have tr: "upsertDevice_try dbf now d (Some u) (Some g) t platf appVersion ?s = (Inr res, s')"
    by (simp add: upsertDevice_Inr)
  from upsertDevice_try_Inr[OF tr] obtain t2 t3 rows where
    ins: "insert_on_conflict
                   \<lparr>device_id = d, user_id = Some u, fcm_token = t,
                    platform = or_null platf, app_version = or_null appVersion,
                    created_at = now, updated_at = now, game_id = Some g, active = True\<rparr>
                   (\<lambda>r. r\<lparr>user_id := Some u, game_id := Some g, fcm_token := t,
                          platform := or_null platf, app_version := or_null appVersion,
                          active := True, updated_at := now\<rparr>) t2 = Inr (t3, rows)"
    and fr: "first_row rows s' = (Inr res, s')"
    by blast
  have "\<forall>x \<in> set t3. device_id x = d \<longrightarrow> user_id x = Some u"
    using ins by (auto simp: insert_on_conflict_Inr split: if_splits)
  moreover have "\<forall>x \<in> set t3. device_id x = d \<longrightarrow> fcm_token x = t"
    using ins by (auto simp: insert_on_conflict_Inr split: if_splits)
  moreover have "rows = filter (\<lambda>r. device_id r = d) t3"
    using ins by (simp add: insert_on_conflict_Inr)
  ultimately have "\<forall>x \<in> set rows. device_id x = d \<and> user_id x = Some u \<and> fcm_token x = t"
    by simp
  then have "res = (d, Some u, t)" using fr by (auto simp: first_row_Inr)
  then have "register_device dbf now deviceId userId gameId fcmToken platf appVersion tbl
                      = ((200, [(''ok'', JBool True), (''deviceId'', JStr d),
                                (''userId'', JDecimal u), (''fcmToken'', JStr t)]), committed s')"
    using a run by (simp add: register_device_def)
  then show "\<exists>tbl'. register_device dbf now deviceId userId gameId fcmToken platf appVersion tbl
                      = ((200, [(''ok'', JBool True), (''deviceId'', JStr d),
                                (''userId'', JDecimal u), (''fcmToken'', JStr t)]), tbl')"
    by blast
qed

text \<open>
  Claim C7. A registration that supplies \<^verbatim>\<open>deviceId\<close> and \<^verbatim>\<open>fcmToken\<close> but no \<^verbatim>\<open>userId\<close>
  (or no \<^verbatim>\<open>gameId\<close>) is to be accepted and the device stored with the absent owner. The
  base server does so: the row is stored with \<^verbatim>\<open>user_id\<close> NULL. The richer server, whose
  own header comment lists \<^verbatim>\<open>userId?\<close> and \<^verbatim>\<open>gameId?\<close> as optional, answers 400 to the same
  request and stores nothing; it does the same when only one of the two is missing.
\<close>

theorem register_without_owner_rejected:
  "register_device_base (\<lambda>_. None) 1 (Some ''d1'') None (Some ''tok-a'') None None []
     = ((200, [(''ok'', JBool True), (''deviceId'', JStr ''d1''), (''userId'', JNull),
               (''fcmToken'', JStr ''tok-a'')]),
        [\<lparr>device_id = ''d1'', user_id = None, fcm_token = ''tok-a'', platform = None,
          app_version = None, created_at = 1, updated_at = 1\<rparr>])
   \<and> register_device (\<lambda>_. None) 1 (Some ''d1'') None None (Some ''tok-a'') None None []
     = ((400, [(''ok'', JBool False), (''message'', JStr ''userId are required'')]), [])
   \<and> register_device (\<lambda>_. None) 1 (Some ''d1'') None (Some 3) (Some ''tok-a'') None None []
     = ((400, [(''ok'', JBool False), (''message'', JStr ''userId are required'')]), [])
   \<and> register_device (\<lambda>_. None) 1 (Some ''d1'') (Some 7) None (Some ''tok-a'') None None []
     = ((400, [(''ok'', JBool False), (''message'', JStr ''gameId are required'')]), [])"
proof -
  have b: "register_device_base (\<lambda>_. None) 1 (Some ''d1'') None (Some ''tok-a'') None None []
     = ((200, [(''ok'', JBool True), (''deviceId'', JStr ''d1''), (''userId'', JNull),
               (''fcmToken'', JStr ''tok-a'')]),
        [\<lparr>device_id = ''d1'', user_id = None, fcm_token = ''tok-a'', platform = None,
          app_version = None, created_at = 1, updated_at = 1\<rparr>])"
    by (simp add: register_device_base_def db_eval)
  have r1: "register_device (\<lambda>_. None) 1 (Some ''d1'') None None (Some ''tok-a'') None None []
     = ((400, [(''ok'', JBool False), (''message'', JStr ''userId are required'')]), [])"
    unfolding register_device_def sendError_def by (simp only: option.case prod.case)
  have r2: "register_device (\<lambda>_. None) 1 (Some ''d1'') None (Some 3) (Some ''tok-a'') None None []
     = ((400, [(''ok'', JBool False), (''message'', JStr ''userId are required'')]), [])"
    unfolding register_device_def sendError_def by (simp only: option.case prod.case)
  have r3: "register_device (\<lambda>_. None) 1 (Some ''d1'') (Some 7) None (Some ''tok-a'') None None []
     = ((400, [(''ok'', JBool False), (''message'', JStr ''gameId are required'')]), [])"
    unfolding register_device_def sendError_def by (simp only: option.case prod.case)
  show ?thesis by (intro conjI) (rule b r1 r2 r3)+
qed

section \<open>Proofs: the event-bus handler\<close>

lemma observed_logs:
  "batches (log_sent u part rs) = []" "batches (log_failed u part rs) = []"
  "concat (map reported_dead (log_sent u part rs)) = []"
  "concat (map reported_dead (log_failed u part rs)) = []"
  "\<forall>x \<in> set (log_sent u part rs). \<not> raised x" "\<forall>x \<in> set (log_failed u part rs). \<not> raised x"
  by (auto simp: log_sent_def log_failed_def batches_def List.map_filter_def)

lemma kafka_loop_events:
  assumes "kafka_loop send msg u cs d0 w = (r, w')"
  shows "\<exists>new. events w' = events w @ new \<and> registry w' = registry w"
  using assms
proof (induction cs arbitrary: d0 w)
  case Nil
  then show ?case by simp
next
  case (Cons part rest)
  obtain x p' where snd: "send (provider w) msg part = (x, p')"
    by (cases "send (provider w) msg part") auto
  show ?case
  proof (cases x)
    case (Inl e)
    then have "w' = emit (Multicast msg part (Inl e)) (w\<lparr>provider := p'\<rparr>)"
      using Cons.prems snd by auto
    then show ?thesis by (simp add: events_emit)
  next
    case (Inr resp)
    let ?w1 = "w\<lparr>provider := p',
               events := events w @ [Multicast msg part (Inr resp)]
                 @ log_sent u part (responses resp)
                 @ log_failed u part (responses resp)\<rparr>"
    have "kafka_loop send msg u rest (d0 @ dead_of_batch part (responses resp)) ?w1 = (r, w')"
      using Cons.prems snd Inr by simp
    from Cons.IH[OF this] obtain new where "events w' = events ?w1 @ new" "registry w' = registry ?w1"
      by blast
    then show ?thesis by simp
  qed
qed

lemma kafka_loop_Inr:
  assumes "kafka_loop send msg u cs d0 w = (Inr d, w')"
  shows "\<exists>new. events w' = events w @ new \<and> registry w' = registry w \<and> batches new = cs
           \<and> (\<forall>x \<in> set new. \<not> raised x) \<and> d = d0 @ concat (map reported_dead new)"
  using assms
proof (induction cs arbitrary: d0 w)
  case Nil
  then show ?case by (simp add: batches_simps)
next
  case (Cons part rest)
  from Cons.prems obtain resp p' where
    snd: "send (provider w) msg part = (Inr resp, p')"
    by (auto split: prod.splits sum.splits)
  let ?logs = "log_sent u part (responses resp) @ log_failed u part (responses resp)"
  let ?w1 = "w\<lparr>provider := p',
               events := events w @ [Multicast msg part (Inr resp)]
                 @ log_sent u part (responses resp)
                 @ log_failed u part (responses resp)\<rparr>"
  have rec: "kafka_loop send msg u rest (d0 @ dead_of_batch part (responses resp)) ?w1 = (Inr d, w')"
    using Cons.prems snd by simp
  from Cons.IH[OF rec] obtain new where
    new: "events w' = events ?w1 @ new" "registry w' = registry ?w1" "batches new = rest"
      "\<forall>x \<in> set new. \<not> raised x"
      "d = (d0 @ dead_of_batch part (responses resp)) @ concat (map reported_dead new)"
    by blast
  let ?new = "Multicast msg part (Inr resp) # ?logs @ new"
  have "events w' = events w @ ?new" using new(1) by simp
  moreover have "registry w' = registry w" using new(2) by simp
  moreover have "batches ?new = part # rest"
    using new(3) by (simp add: batches_simps observed_logs)
  moreover have "\<forall>x \<in> set ?new. \<not> raised x"
    using new(4) observed_logs(5,6)[of u part "responses resp"] by auto
  moreover have "d = d0 @ concat (map reported_dead ?new)"
    using new(5) observed_logs(3,4)[of u part "responses resp"] by simp
  ultimately show ?case by blast
qed

lemma kafka_dispatch_run:
  assumes "kafka_dispatch send dbf msg u cs w = (r, w')"
  shows "\<exists>new. events w' = events w @ new \<and> set (registry w') \<subseteq> set (registry w)
       \<and> (r = Inr () \<longrightarrow>
            registry w' = filter (\<lambda>x. Some (fcm_token x) \<notin> set (concat (map reported_dead new)))
                            (registry w))"
proof (cases "kafka_loop send msg u cs [] w")
  case (Pair x w1)
  show ?thesis
  proof (cases x)
    case (Inl e)
    then have "r = Inl e" "w' = w1" using assms Pair by (simp_all add: kafka_dispatch_def)
    moreover obtain new where "events w1 = events w @ new" "registry w1 = registry w"
      using kafka_loop_events[OF Pair] by blast
    ultimately show ?thesis by (intro exI[of _ new]) simp
  next
    case (Inr dead)
    have run: "kafka_loop send msg u cs [] w = (Inr dead, w1)" using Pair Inr by simp
    from kafka_loop_Inr[OF run] obtain new where
      new: "events w1 = events w @ new" "registry w1 = registry w"
        "dead = concat (map reported_dead new)"
      by auto
    show ?thesis
    proof (cases "dead = []")
      case True
      then have "r = Inr ()" "w' = w1" using assms run by (simp_all add: kafka_dispatch_def)
      then show ?thesis using new True by (intro exI[of _ new]) simp
    next
      case False
      obtain r2 w2 where del: "delete_all dbf dead w1 = (r2, w2)"
        by (cases "delete_all dbf dead w1") auto
      note d = delete_all_run[OF del]
      let ?all = "new @ map (\<lambda>t. Query (DeleteByToken t)) dead"
      have w': "w' = w2" using assms run False del
        by (auto simp: kafka_dispatch_def split: option.splits)
      have r: "r = Inr () \<longrightarrow> r2 = None" using assms run False del
        by (auto simp: kafka_dispatch_def split: option.splits)
      have rd: "concat (map reported_dead ?all) = dead"
        using observed_deletes(5)[of dead] new(3) by simp
      have "events w' = events w @ ?all" using d new(1) w' by simp
      moreover have "set (registry w') \<subseteq> set (registry w)" using d new(2) w' by simp
      moreover have "r = Inr () \<longrightarrow>
            registry w' = filter (\<lambda>x. Some (fcm_token x) \<notin> set (concat (map reported_dead ?all)))
                            (registry w)"
        unfolding rd using d r new(2) w' by simp
      ultimately show ?thesis by blast
    qed
  qed
qed

lemma handler_invalid_userId:
  assumes "userId_number js (userIdRaw_of data) = NaN \<or> userId_number js (userIdRaw_of data) = Num 0"
  shows "handleSendUserNotification js send dbf data w
           = Some (Inr (), emit (ConsoleError InvalidUserId) w)"
  using assms by (auto simp: handleSendUserNotification_def Let_def)

lemma handler_missing_text:
  assumes "userId_number js (userIdRaw_of data) = Num u" "u \<noteq> 0"
    and "field_or_empty data kd_title = [] \<or> field_or_empty data kd_body = []"
  shows "handleSendUserNotification js send dbf data w
           = Some (Inr (), emit (ConsoleError MissingTitleBody) w)"
  using assms by (auto simp: handleSendUserNotification_def Let_def)


lemma handler_valid:
  assumes "userId_number js (userIdRaw_of data) = Num u" "u \<noteq> 0"
    and "field_or_empty data kd_title \<noteq> []" "field_or_empty data kd_body \<noteq> []"
    and "getTokensByUserId dbf u (registry w) = Inr tokens"
  shows "handleSendUserNotification js send dbf data w =
           (if tokens = []
            then Some (Inr (), emit (ConsoleLog (NoActiveTokens u))
                                 (emit (Query (SelectTokensByUser u)) w))
            else map_option
                   (\<lambda>chunks. kafka_dispatch send dbf
                      \<lparr>m_notification = None,
                       m_data = Some [(''eventName'', ''SendUserNotification''),
                                      (''chatId'', field_or_empty data kd_chatId),
                                      (''title'', field_or_empty data kd_title),
                                      (''route'', field_or_empty data kd_route),
                                      (''body'', field_or_empty data kd_body),
                                      (''image'',
                                       case normalizeImageUrl js
                                              (case data of None \<Rightarrow> None | Some x \<Rightarrow> kd_image x) of
                                         None \<Rightarrow> []
                                       | Some u \<Rightarrow> u)],
                       m_android = Some [(''priority'', ''high'')]\<rparr>
                      u chunks (emit (Query (SelectTokensByUser u)) w))
                   (chunk tokens 500))"
  using assms by (simp add: handleSendUserNotification_def Let_def)

lemma handler_lookup:
  assumes "userId_number js (userIdRaw_of data) = Num u" "u \<noteq> 0"
    and "field_or_empty data kd_title \<noteq> []" "field_or_empty data kd_body \<noteq> []"
  shows "\<exists>r w' rest. handleSendUserNotification js send dbf data w = Some (r, w')
           \<and> events w' = events w @ Query (SelectTokensByUser u) # rest"
proof (cases "getTokensByUserId dbf u (registry w)")
  case (Inl e)
  then have "handleSendUserNotification js send dbf data w
      = Some (Inr (), emit (ConsoleError (LoadTokensFailed u e)) (emit (Query (SelectTokensByUser u)) w))"
    using assms by (simp add: handleSendUserNotification_def Let_def)
  then show ?thesis by (simp add: events_emit)
next
  case (Inr tokens)
  note h = handler_valid[OF assms Inr, of send]
  show ?thesis
  proof (cases "tokens = []")
    case True
    then show ?thesis using h by (simp add: events_emit)
  next
    case False
    obtain cs where cs: "chunk tokens 500 = Some cs" using chunk_total[of 500 tokens] by auto
    let ?w1 = "emit (Query (SelectTokensByUser u)) w"
    let ?msg = "\<lparr>m_notification = None,
                       m_data = Some [(''eventName'', ''SendUserNotification''),
                                      (''chatId'', field_or_empty data kd_chatId),
                                      (''title'', field_or_empty data kd_title),
                                      (''route'', field_or_empty data kd_route),
                                      (''body'', field_or_empty data kd_body),
                                      (''image'',
                                       case normalizeImageUrl js
                                              (case data of None \<Rightarrow> None | Some x \<Rightarrow> kd_image x) of
                                         None \<Rightarrow> []
                                       | Some u \<Rightarrow> u)],
                       m_android = Some [(''priority'', ''high'')]\<rparr>"
    obtain r w' where d: "kafka_dispatch send dbf ?msg u cs ?w1 = (r, w')"
      by (cases "kafka_dispatch send dbf ?msg u cs ?w1") auto
    from kafka_dispatch_run[OF d] obtain new where "events w' = events ?w1 @ new" by blast
    then have "events w' = events w @ Query (SelectTokensByUser u) # new" by (simp add: events_emit)
    moreover have "handleSendUserNotification js send dbf data w = Some (r, w')"
      using h False cs d by simp
    ultimately show ?thesis by blast
  qed
qed

text \<open>
  Claim C6, as amended. A SendUserNotification event whose \<^verbatim>\<open>userId\<close> is missing (the
  empty string converts to 0), is a string that does not convert to a number (NaN), or
  is zero, is given up with the diagnostic \<^verbatim>\<open>missing or invalid userId\<close> as its only
  effect: no token lookup, no dispatch. With a usable \<^verbatim>\<open>userId\<close>, a missing or empty
  title or body is given up with its diagnostic in the same way. Every other number,
  a negative one included, passes the check: the handler returns after having looked
  up the tokens of that user id.
\<close>

theorem kafka_userId_validation:
  "(userId_number js (userIdRaw_of data) = NaN \<or> userId_number js (userIdRaw_of data) = Num 0
      \<longrightarrow> handleSendUserNotification js send dbf data w
            = Some (Inr (), w\<lparr>events := events w @ [ConsoleError InvalidUserId]\<rparr>))
   \<and> (js_Number js [] = Num 0 \<and> (data = None \<or> (\<exists>x. data = Some x \<and> kd_userId x = None))
      \<longrightarrow> handleSendUserNotification js send dbf data w
            = Some (Inr (), w\<lparr>events := events w @ [ConsoleError InvalidUserId]\<rparr>))
   \<and> (\<forall>u. userId_number js (userIdRaw_of data) = Num u \<and> u \<noteq> 0
          \<and> (field_or_empty data kd_title = [] \<or> field_or_empty data kd_body = [])
      \<longrightarrow> handleSendUserNotification js send dbf data w
            = Some (Inr (), w\<lparr>events := events w @ [ConsoleError MissingTitleBody]\<rparr>))
   \<and> (\<forall>u. userId_number js (userIdRaw_of data) = Num u \<and> u \<noteq> 0
          \<and> field_or_empty data kd_title \<noteq> [] \<and> field_or_empty data kd_body \<noteq> []
      \<longrightarrow> (\<exists>r w' rest. handleSendUserNotification js send dbf data w = Some (r, w')
             \<and> events w' = events w @ Query (SelectTokensByUser u) # rest))"
proof (intro conjI allI impI)
  assume "userId_number js (userIdRaw_of data) = NaN \<or> userId_number js (userIdRaw_of data) = Num 0"
  then show "handleSendUserNotification js send dbf data w
            = Some (Inr (), w\<lparr>events := events w @ [ConsoleError InvalidUserId]\<rparr>)"
    by (simp add: handler_invalid_userId emit_def)
next
  assume a: "js_Number js [] = Num 0 \<and> (data = None \<or> (\<exists>x. data = Some x \<and> kd_userId x = None))"
  then have "userIdRaw_of data = UStr []" by (auto simp: userIdRaw_of_def)
  then have "userId_number js (userIdRaw_of data) = Num 0" using a by (simp add: userId_number_def)
  then show "handleSendUserNotification js send dbf data w
            = Some (Inr (), w\<lparr>events := events w @ [ConsoleError InvalidUserId]\<rparr>)"
    by (simp add: handler_invalid_userId emit_def)
next
  fix u
  assume "userId_number js (userIdRaw_of data) = Num u \<and> u \<noteq> 0
          \<and> (field_or_empty data kd_title = [] \<or> field_or_empty data kd_body = [])"
  then show "handleSendUserNotification js send dbf data w
            = Some (Inr (), w\<lparr>events := events w @ [ConsoleError MissingTitleBody]\<rparr>)"
    using handler_missing_text[of js data u send dbf w] by (simp add: emit_def)
next
  fix u
  assume "userId_number js (userIdRaw_of data) = Num u \<and> u \<noteq> 0
          \<and> field_or_empty data kd_title \<noteq> [] \<and> field_or_empty data kd_body \<noteq> []"
  then show "\<exists>r w' rest. handleSendUserNotification js send dbf data w = Some (r, w')
             \<and> events w' = events w @ Query (SelectTokensByUser u) # rest"
    using handler_lookup[of js data u send dbf w] by blast
qed


text \<open>
  Claim C6 as stated fails for a negative \<^verbatim>\<open>userId\<close>: the event with \<^verbatim>\<open>userId = -5\<close> is
  not given up; the tokens of user -5 are looked up and sent to.
\<close>

theorem kafka_negative_userId_counterexample:
  "handleSendUserNotification
     \<lparr>js_Number = (\<lambda>_. NaN), js_trim = (\<lambda>s. s), js_URL = (\<lambda>_. None)\<rparr>
     (\<lambda>p m ts. (Inr \<lparr>responses = map (\<lambda>_. \<lparr>success = True, error_code = None,
                                                error_message = None\<rparr>) ts,
                      successCount = length ts, failureCount = 0\<rparr>, p))
     (\<lambda>_. None)
     (Some \<lparr>kd_chatId = None, kd_route = None, kd_userId = Some (UNum (Num (- 5))),
            kd_title = Some ''Hi'', kd_body = Some ''there'', kd_image = None\<rparr>)
     \<lparr>registry =
        [\<lparr>device_id = ''d1'', user_id = Some (- 5), fcm_token = ''tok-a'', platform = None,
          app_version = None, created_at = 1, updated_at = 1, game_id = Some 3, active = True\<rparr>],
      provider = (), events = []\<rparr>
   = Some (Inr (),
      \<lparr>registry =
        [\<lparr>device_id = ''d1'', user_id = Some (- 5), fcm_token = ''tok-a'', platform = None,
          app_version = None, created_at = 1, updated_at = 1, game_id = Some 3, active = True\<rparr>],
       provider = (),
       events =
        [Query (SelectTokensByUser (- 5)),
         Multicast
           \<lparr>m_notification = None,
            m_data = Some [(''eventName'', ''SendUserNotification''), (''chatId'', []),
                           (''title'', ''Hi''), (''route'', []), (''body'', ''there''),
                           (''image'', [])],
            m_android = Some [(''priority'', ''high'')]\<rparr>
           [''tok-a'']
           (Inr \<lparr>responses = [\<lparr>success = True, error_code = None, error_message = None\<rparr>],
                 successCount = 1, failureCount = 0\<rparr>),
         ConsoleLog (Sent (- 5) (Some ''tok-a''))]\<rparr>)"
proof -
  have c: "chunk [''tok-a''] 500 = Some [[''tok-a'']]" by (rule chunk_single) simp_all
  show ?thesis
    by (simp add: handleSendUserNotification_def Let_def userId_number_def userIdRaw_of_def
        field_or_empty_def normalizeImageUrl_def getTokensByUserId_def c kafka_dispatch_def
        emit_def dead_of_batch_def log_sent_def log_failed_def js_index_def)
qed

theorem kafka_userId_validation_witness:
  "handleSendUserNotification
     \<lparr>js_Number = (\<lambda>_. NaN), js_trim = (\<lambda>s. s), js_URL = (\<lambda>_. None)\<rparr>
     (\<lambda>p m ts. (Inr \<lparr>responses = [], successCount = length ts, failureCount = 0\<rparr>, p))
     (\<lambda>_. None)
     (Some \<lparr>kd_chatId = None, kd_route = None, kd_userId = Some (UStr ''abc''),
            kd_title = Some ''Hi'', kd_body = Some ''there'', kd_image = None\<rparr>)
     \<lparr>registry = [], provider = (), events = []\<rparr>
   = Some (Inr (), \<lparr>registry = [], provider = (), events = [ConsoleError InvalidUserId]\<rparr>)"
proof -
  let ?js = "\<lparr>js_Number = (\<lambda>_. NaN), js_trim = (\<lambda>s. s), js_URL = (\<lambda>_. None)\<rparr>"
  let ?data = "Some \<lparr>kd_chatId = None, kd_route = None, kd_userId = Some (UStr ''abc''),
            kd_title = Some ''Hi'', kd_body = Some ''there'', kd_image = None\<rparr>"
  let ?w = "\<lparr>registry = ([] :: int device list), provider = (), events = ([] :: int event list)\<rparr>"
  have n: "userId_number ?js (userIdRaw_of ?data) = NaN
         \<or> userId_number ?js (userIdRaw_of ?data) = Num 0"
    by (simp add: userId_number_def userIdRaw_of_def)
  note c = conjunct1[OF kafka_userId_validation[where js="?js" and data="?data" and w="?w"
        and send="\<lambda>p m ts. (Inr \<lparr>responses = [], successCount = length ts, failureCount = 0\<rparr>, p)"
        and dbf="\<lambda>_. None"]]
  from mp[OF c n] show ?thesis by simp
qed

section \<open>Proofs: broadcast paging\<close>

declare page_loop.simps [simp del]

lemma ceiling_pages:
  assumes "0 < k"
  shows "nat \<lceil>real n / real k\<rceil> = (n + k - 1) div k"
proof -
  define q where "q = (n + k - 1) div k"
  define r where "r = (n + k - 1) mod k"
  have "q * k + r = n + k - 1" unfolding q_def r_def by simp
  moreover have "r < k" unfolding r_def using assms by simp
  ultimately have a: "n \<le> q * k" and b: "q * k < n + k" using assms by linarith+
  have "real n \<le> real (q * k)" using a by (simp only: of_nat_le_iff)
  then have le: "real n / real k \<le> real q" using assms by (simp add: pos_divide_le_eq)
  have "real (q * k) < real (n + k)" using b by (simp only: of_nat_less_iff)
  then have "(real q - 1) * real k < real n" by (simp add: algebra_simps)
  then have gt: "real q - 1 < real n / real k" using assms by (simp add: pos_less_divide_eq)
  have "\<lceil>real n / real k\<rceil> = int q"
    by (rule ceiling_unique) (use le gt in simp_all)
  then show ?thesis unfolding q_def by simp
qed

lemma concat_pages:
  "concat (map (\<lambda>k. take l (drop (k * l) xs)) [0..<P]) = take (P * l) xs"
proof (induction P)
  case 0
  then show ?case by simp
next
  case (Suc P)
  have "take (Suc P * l) xs = take (P * l) xs @ take l (drop (P * l) xs)"
    using take_add[of "P * l" l xs] by (simp add: add.commute)
  then show ?case using Suc by simp
qed

lemma concat_nonempty: "concat (filter (\<lambda>x. x \<noteq> []) xss) = concat xss"
  by (induction xss) auto


lemma getAllActiveTokensPage_Inr:
  "getAllActiveTokensPage dbf limit offset tbl = Inr tokens \<longleftrightarrow>
     dbf (SelectActivePage limit offset) = None
   \<and> tokens = map fcm_token (take limit (drop offset (active_ordered tbl)))"
  by (auto simp: getAllActiveTokensPage_def split: option.splits)

lemma page_loop_registry:
  "page_loop send dbf msg limit P page (s0, f0) w = (r, w') \<Longrightarrow> registry w' = registry w"
proof (induction "P - page" arbitrary: page s0 f0 w)
  case 0
  have "\<not> page < P" using "0.hyps" by simp
  then have "w' = w"
    using "0.prems" by (subst (asm) page_loop.simps) (simp del: page_loop.simps)
  then show ?case by simp
next
  case (Suc n)
  have lt: "page < P" using Suc.hyps(2) by simp
  have n: "n = P - (page + 1)" using Suc.hyps(2) by simp
  let ?q = "Query (SelectActivePage limit (page * limit))"
  show ?case
  proof (cases "getAllActiveTokensPage dbf limit (page * limit) (registry w)")
    case (Inl e)
    then have "w' = emit ?q w"
      using Suc.prems lt by (subst (asm) page_loop.simps) (simp del: page_loop.simps)
    then show ?thesis by (simp add: events_emit)
  next
    case (Inr tokens)
    show ?thesis
    proof (cases "tokens = []")
      case True
      then have "page_loop send dbf msg limit P (page + 1) (s0, f0) (emit ?q w) = (r, w')"
        using Suc.prems lt Inr by (subst (asm) page_loop.simps) (simp del: page_loop.simps)
      from Suc.hyps(1)[OF n this] show ?thesis by (simp add: events_emit)
    next
      case False
      obtain x p' where snd: "send (provider w) msg tokens = (x, p')"
        by (cases "send (provider w) msg tokens") auto
      show ?thesis
      proof (cases x)
        case (Inl e)
        then have "w' = emit (Multicast msg tokens (Inl e)) (emit ?q (w\<lparr>provider := p'\<rparr>))"
          using Suc.prems lt Inr False snd
          by (subst (asm) page_loop.simps) (auto simp del: page_loop.simps)
        then show ?thesis by (simp add: events_emit)
      next
        case (Inr resp)
        then have "page_loop send dbf msg limit P (page + 1)
                      (s0 + successCount resp, f0 + failureCount resp)
                      (emit (Multicast msg tokens (Inr resp)) (emit ?q (w\<lparr>provider := p'\<rparr>)))
                    = (r, w')"
          using Suc.prems lt \<open>getAllActiveTokensPage dbf limit (page * limit) (registry w) = Inr tokens\<close>
            False snd
          by (subst (asm) page_loop.simps) (simp del: page_loop.simps)
        from Suc.hyps(1)[OF n this] show ?thesis by (simp add: events_emit)
      qed
    qed
  qed
qed

lemma page_loop_Inr:
  assumes "page_loop send dbf msg limit P page (s0, f0) w = (Inr (s, f), w')"
  shows "\<exists>new. events w' = events w @ new
     \<and> pages_fetched new = map (\<lambda>k. (limit, k * limit)) [page..<P]
     \<and> batches new = filter (\<lambda>x. x \<noteq> [])
          (map (\<lambda>k. map fcm_token (take limit (drop (k * limit) (active_ordered (registry w)))))
             [page..<P])
     \<and> (\<forall>k. page \<le> k \<and> k < P \<longrightarrow> dbf (SelectActivePage limit (k * limit)) = None)
     \<and> (\<forall>x \<in> set new. \<not> raised x)
     \<and> s + f = s0 + f0 + sum_list (map counted new)"
  using assms
proof (induction "P - page" arbitrary: page s0 f0 w)
  case 0
  then have "\<not> page < P" by simp
  then have "w' = w" "s = s0" "f = f0"
    using "0.prems" by (subst (asm) page_loop.simps, simp del: page_loop.simps)+
  then show ?case using \<open>\<not> page < P\<close> by (auto simp: pages_fetched_simps batches_simps)
next
  case (Suc n)
  have lt: "page < P" using Suc.hyps(2) by simp
  have n: "n = P - (page + 1)" using Suc.hyps(2) by simp
  have upt: "[page..<P] = page # [page + 1..<P]" using lt by (simp add: upt_conv_Cons)
  let ?q = "Query (SelectActivePage limit (page * limit))"
  let ?pg = "\<lambda>k. map fcm_token (take limit (drop (k * limit) (active_ordered (registry w))))"
  obtain tokens where look: "getAllActiveTokensPage dbf limit (page * limit) (registry w) = Inr tokens"
    using Suc.prems lt
    by (subst (asm) page_loop.simps) (auto simp del: page_loop.simps split: sum.splits)
  then have nf: "dbf (SelectActivePage limit (page * limit)) = None" and tk: "tokens = ?pg page"
    by (simp_all add: getAllActiveTokensPage_Inr)
  have range: "\<forall>k. page \<le> k \<and> k < P \<longrightarrow> dbf (SelectActivePage limit (k * limit)) = None"
    if "\<forall>k. page + 1 \<le> k \<and> k < P \<longrightarrow> dbf (SelectActivePage limit (k * limit)) = None"
    using that nf by (metis Suc_eq_plus1 le_neq_implies_less less_eq_Suc_le)
  show ?case
  proof (cases "tokens = []")
    case True
    let ?w1 = "emit ?q w"
    have rec: "page_loop send dbf msg limit P (page + 1) (s0, f0) ?w1 = (Inr (s, f), w')"
      using Suc.prems lt look True by (subst (asm) page_loop.simps) (simp del: page_loop.simps)
    from Suc.hyps(1)[OF n rec] obtain new where
      new: "events w' = events ?w1 @ new"
        "pages_fetched new = map (\<lambda>k. (limit, k * limit)) [page + 1..<P]"
        "batches new = filter (\<lambda>x. x \<noteq> [])
          (map (\<lambda>k. map fcm_token (take limit (drop (k * limit) (active_ordered (registry ?w1)))))
             [page + 1..<P])"
        "\<forall>k. page + 1 \<le> k \<and> k < P \<longrightarrow> dbf (SelectActivePage limit (k * limit)) = None"
        "\<forall>x \<in> set new. \<not> raised x"
        "s + f = s0 + f0 + sum_list (map counted new)"
      by blast
    let ?new = "?q # new"
    have "events w' = events w @ ?new" using new(1) by (simp add: events_emit)
    moreover have "pages_fetched ?new = map (\<lambda>k. (limit, k * limit)) [page..<P]"
      using new(2) unfolding upt by (simp add: pages_fetched_simps)
    moreover have "batches ?new = filter (\<lambda>x. x \<noteq> []) (map ?pg [page..<P])"
      using new(3) True tk unfolding upt by (simp add: batches_simps events_emit)
    moreover have "\<forall>x \<in> set ?new. \<not> raised x" using new(5) by simp
    moreover have "s + f = s0 + f0 + sum_list (map counted ?new)" using new(6) by simp
    ultimately show ?thesis using range[OF new(4)] by blast
  next
    case False
    from Suc.prems lt look False obtain resp p' where
      snd: "send (provider w) msg tokens = (Inr resp, p')"
      by (subst (asm) page_loop.simps) (auto simp del: page_loop.simps split: prod.splits sum.splits)
    let ?w2 = "emit (Multicast msg tokens (Inr resp)) (emit ?q (w\<lparr>provider := p'\<rparr>))"
    have rec: "page_loop send dbf msg limit P (page + 1)
                 (s0 + successCount resp, f0 + failureCount resp) ?w2 = (Inr (s, f), w')"
      using Suc.prems lt look False snd
      by (subst (asm) page_loop.simps) (simp del: page_loop.simps)
    from Suc.hyps(1)[OF n rec] obtain new where
      new: "events w' = events ?w2 @ new"
        "pages_fetched new = map (\<lambda>k. (limit, k * limit)) [page + 1..<P]"
        "batches new = filter (\<lambda>x. x \<noteq> [])
          (map (\<lambda>k. map fcm_token (take limit (drop (k * limit) (active_ordered (registry ?w2)))))
             [page + 1..<P])"
        "\<forall>k. page + 1 \<le> k \<and> k < P \<longrightarrow> dbf (SelectActivePage limit (k * limit)) = None"
        "\<forall>x \<in> set new. \<not> raised x"
        "s + f = (s0 + successCount resp) + (f0 + failureCount resp) + sum_list (map counted new)"
      by blast
    let ?new = "?q # Multicast msg tokens (Inr resp) # new"
    have "events w' = events w @ ?new" using new(1) by (simp add: events_emit)
    moreover have "pages_fetched ?new = map (\<lambda>k. (limit, k * limit)) [page..<P]"
      using new(2) unfolding upt by (simp add: pages_fetched_simps)
    moreover have "batches ?new = filter (\<lambda>x. x \<noteq> []) (map ?pg [page..<P])"
      using new(3) False tk unfolding upt by (simp add: batches_simps events_emit)
    moreover have "\<forall>x \<in> set ?new. \<not> raised x" using new(5) by simp
    moreover have "s + f = s0 + f0 + sum_list (map counted ?new)" using new(6) by simp
    ultimately show ?thesis using range[OF new(4)] by blast
  qed
qed


lemma push_all_registry:
  assumes run: "push_all send dbf title body data img w = (resp, w')"
  shows "registry w' = registry w"
proof (cases "or_null title")
  case None
  then have "w' = w" using run by (simp add: push_all_def)
  then show ?thesis by simp
next
  case ti: (Some ti)
  show ?thesis
  proof (cases "or_null body")
    case None
    then have "w' = w" using run ti by (simp add: push_all_def)
    then show ?thesis by simp
  next
    case bo: (Some bo)
    let ?w1 = "emit (Query SelectActiveCount) w"
    show ?thesis
    proof (cases "getActiveTokensCount dbf (registry w)")
      case (Inl e)
      then have "w' = ?w1" using run ti bo by (simp add: push_all_def)
      then show ?thesis by (simp add: events_emit)
    next
      case (Inr n)
      show ?thesis
      proof (cases "n = 0")
        case True
        then have "w' = ?w1" using run ti bo Inr by (simp add: push_all_def)
        then show ?thesis by (simp add: events_emit)
      next
        case False
        let ?msg = "\<lparr>m_notification = Some (notification_of ''imageUrl'' ti bo img),
                          m_data = data, m_android = None\<rparr>"
        obtain r w2 where loop:
          "page_loop send dbf ?msg 20 (nat \<lceil>real n / real (20::nat)\<rceil>) 0 (0, 0) ?w1 = (r, w2)"
          by (cases "page_loop send dbf ?msg 20 (nat \<lceil>real n / real (20::nat)\<rceil>) 0 (0, 0) ?w1") auto
        have "w' = w2" using run ti bo Inr False loop
          by (cases r) (auto simp: push_all_def)
        moreover have "registry w2 = registry ?w1" using page_loop_registry[OF loop] .
        ultimately show ?thesis by (simp add: events_emit)
      qed
    qed
  qed
qed

lemma push_token_registry:
  assumes run: "push_token send1 token title body data img w = (resp, w')"
  shows "registry w' = registry w"
proof (cases "or_null token")
  case None
  then have "w' = w" using run by (simp add: push_token_def)
  then show ?thesis by simp
next
  case tok: (Some tok)
  show ?thesis
  proof (cases "or_null title")
    case None
    then have "w' = w" using run tok by (simp add: push_token_def)
    then show ?thesis by simp
  next
    case ti: (Some ti)
    show ?thesis
    proof (cases "or_null body")
      case None
      then have "w' = w" using run tok ti by (simp add: push_token_def)
      then show ?thesis by simp
    next
      case bo: (Some bo)
      let ?msg = "\<lparr>m_notification = Some (notification_of ''imageUrl'' ti bo img),
                      m_data = data, m_android = None\<rparr>"
      obtain x p' where snd: "send1 (provider w) ?msg tok = (x, p')"
        by (cases "send1 (provider w) ?msg tok") auto
      have "w' = emit (SendOne ?msg tok x) (w\<lparr>provider := p'\<rparr>)"
        using run tok ti bo snd by (cases x) (auto simp: push_token_def Let_def)
      then show ?thesis by (simp add: events_emit)
    qed
  qed
qed

lemma page_within:
  assumes "k < (N + 19) div 20"
  shows "k * 20 < (N::nat)"
proof -
  have "(k + 1) * 20 \<le> (N + 19) div 20 * 20" using assms by simp
  also have "\<dots> \<le> N + 19" by simp
  finally show ?thesis by simp
qed

lemma active_ordered_tokens:
  "mset (map fcm_token (active_ordered tbl)) = mset (map fcm_token (filter active tbl))"
  by (simp add: active_ordered_def)

lemma active_ordered_distinct:
  assumes "distinct (map fcm_token tbl)"
  shows "distinct (map fcm_token (active_ordered tbl))"
proof -
  have "distinct (map fcm_token (filter active tbl))" using assms by (rule distinct_map_filter)
  then show ?thesis using active_ordered_tokens[of tbl] mset_eq_imp_distinct_iff by blast
qed

lemma pages_cover: "N \<le> (N + 19) div 20 * (20::nat)"
proof -
  have "(N + 19) div 20 * 20 + (N + 19) mod 20 = N + 19" by simp
  moreover have "(N + 19) mod 20 < 20" by simp
  ultimately show ?thesis by linarith
qed

lemma push_all_valid:
  assumes "ti \<noteq> []" "bo \<noteq> []"
  shows "push_all send dbf (Some ti) (Some bo) data img w =
           (case getActiveTokensCount dbf (registry w) of
              Inl e \<Rightarrow> (sendError 500 e, emit (Query SelectActiveCount) w)
            | Inr totalCount \<Rightarrow>
                if totalCount = 0
                then ((200, [(''ok'', JBool True), (''sent'', JNum 0),
                             (''info'', JStr ''No active users'')]),
                      emit (Query SelectActiveCount) w)
                else
                  (case page_loop send dbf
                          \<lparr>m_notification = Some (notification_of ''imageUrl'' ti bo img),
                           m_data = data, m_android = None\<rparr>
                          20 (nat \<lceil>real totalCount / real (20::nat)\<rceil>) 0 (0, 0)
                          (emit (Query SelectActiveCount) w) of
                     (Inl e, w') \<Rightarrow> (sendError 500 e, w')
                   | (Inr (sent, failed), w') \<Rightarrow>
                       ((200, [(''ok'', JBool True), (''sent'', JNum (int sent)),
                               (''failed'', JNum (int failed))]), w')))"
  using assms by (simp add: push_all_def or_null_def Let_def)


lemma push_all_ok:
  assumes req: "ti \<noteq> []" "bo \<noteq> []"
    and run: "push_all send dbf (Some ti) (Some bo) data img w = ((200, body), w')"
  shows "getActiveTokensCount dbf (registry w) = Inr (length (filter active (registry w)))
       \<and> (length (filter active (registry w)) = 0 \<longrightarrow> w' = emit (Query SelectActiveCount) w)
       \<and> (length (filter active (registry w)) \<noteq> 0 \<longrightarrow>
            (\<exists>sent failed. page_loop send dbf
                          \<lparr>m_notification = Some (notification_of ''imageUrl'' ti bo img),
                           m_data = data, m_android = None\<rparr>
                          20 (nat \<lceil>real (length (filter active (registry w))) / real (20::nat)\<rceil>)
                          0 (0, 0) (emit (Query SelectActiveCount) w)
                        = (Inr (sent, failed), w')))"
proof -
  let ?N = "length (filter active (registry w))"
  let ?w1 = "emit (Query SelectActiveCount) w"
  let ?msg = "\<lparr>m_notification = Some (notification_of ''imageUrl'' ti bo img),
                           m_data = data, m_android = None\<rparr>"
  note v = push_all_valid[OF req, of send dbf data img w]
  have cnt: "getActiveTokensCount dbf (registry w) = Inr ?N"
  proof (cases "dbf SelectActiveCount")
    case None
    then show ?thesis by (simp add: getActiveTokensCount_def)
  next
    case (Some e)
    then have "getActiveTokensCount dbf (registry w) = Inl e" by (simp add: getActiveTokensCount_def)
    then have "push_all send dbf (Some ti) (Some bo) data img w = (sendError 500 e, ?w1)"
      unfolding v by (simp only: sum.case)
    with run have "sendError 500 e = (200, body)" by (simp only: prod.inject)
    then show ?thesis by (simp add: sendError_def)
  qed
  have z: "?N = 0 \<longrightarrow> w' = ?w1"
  proof
    assume "?N = 0"
    then have "push_all send dbf (Some ti) (Some bo) data img w
        = ((200, [(''ok'', JBool True), (''sent'', JNum 0), (''info'', JStr ''No active users'')]), ?w1)"
      unfolding v cnt by (simp only: sum.case simp_thms if_True)
    then show "w' = ?w1" using run by (simp only: prod.inject)
  qed
  have nz: "?N \<noteq> 0 \<longrightarrow> (\<exists>sent failed.
      page_loop send dbf ?msg 20 (nat \<lceil>real ?N / real (20::nat)\<rceil>) 0 (0, 0) ?w1
        = (Inr (sent, failed), w'))"
  proof
    assume n: "?N \<noteq> 0"
    obtain r w2 where loop:
      "page_loop send dbf ?msg 20 (nat \<lceil>real ?N / real (20::nat)\<rceil>) 0 (0, 0) ?w1 = (r, w2)"
      by (cases "page_loop send dbf ?msg 20 (nat \<lceil>real ?N / real (20::nat)\<rceil>) 0 (0, 0) ?w1") auto
    show "\<exists>sent failed.
      page_loop send dbf ?msg 20 (nat \<lceil>real ?N / real (20::nat)\<rceil>) 0 (0, 0) ?w1
        = (Inr (sent, failed), w')"
    proof (cases r)
      case (Inl e)
      have "push_all send dbf (Some ti) (Some bo) data img w = (sendError 500 e, w2)"
        unfolding v cnt using n loop Inl by (simp only: sum.case simp_thms if_False prod.case)
      with run have "sendError 500 e = (200, body)" by (simp only: prod.inject)
      then show ?thesis by (simp add: sendError_def)
    next
      case (Inr sf)
      obtain sent failed where sf: "sf = (sent, failed)" by (cases sf) auto
      have "push_all send dbf (Some ti) (Some bo) data img w
              = ((200, [(''ok'', JBool True), (''sent'', JNum (int sent)),
                               (''failed'', JNum (int failed))]), w2)"
        unfolding v cnt using n loop Inr sf by (simp only: sum.case simp_thms if_False prod.case)
      then have "w2 = w'" using run by (simp only: prod.inject)
      then show ?thesis using loop Inr sf by (simp only:) blast
    qed
  qed
  show ?thesis using cnt z nz by (intro conjI)
qed


text \<open>
  What a broadcast that was answered 200 has done: the pages it fetched and the batches
  it sent.
\<close>

lemma push_all_answered:
  assumes req: "ti \<noteq> []" "bo \<noteq> []"
    and N: "N = length (filter active (registry w))"
    and run: "push_all send dbf (Some ti) (Some bo) data img w = ((200, body), w')"
  shows "\<exists>new. events w' = events w @ Query SelectActiveCount # new
     \<and> registry w' = registry w
     \<and> pages_fetched new = map (\<lambda>k. (20, k * 20)) [0..<nat \<lceil>real N / 20\<rceil>]
     \<and> length (pages_fetched new) = (N + 19) div 20
     \<and> batches new = map (\<lambda>k. map fcm_token (take 20 (drop (k * 20) (active_ordered (registry w)))))
                         [0..<(N + 19) div 20]
     \<and> (\<forall>k < (N + 19) div 20.
           getAllActiveTokensPage dbf 20 (k * 20) (registry w) = Inr (batches new ! k))
     \<and> concat (batches new) = map fcm_token (active_ordered (registry w))
     \<and> mset (concat (batches new)) = mset (map fcm_token (filter active (registry w)))
     \<and> (distinct (map fcm_token (registry w)) \<longrightarrow> distinct (concat (batches new)))"
proof -
  let ?xs = "active_ordered (registry w)"
  let ?P = "(N + 19) div 20"
  let ?pg = "\<lambda>k. map fcm_token (take 20 (drop (k * 20) ?xs))"
  let ?w1 = "emit (Query SelectActiveCount) w"
  let ?msg = "\<lparr>m_notification = Some (notification_of ''imageUrl'' ti bo img),
                          m_data = data, m_android = None\<rparr>"
  note ok = push_all_ok[OF req run, folded N]
  have len: "length ?xs = N" by (simp add: active_ordered_def N)
  have P: "nat \<lceil>real N / real (20::nat)\<rceil> = ?P" using ceiling_pages[of 20 N] by simp
  have P': "nat \<lceil>real N / 20\<rceil> = ?P" using P by simp
  show ?thesis
  proof (cases "N = 0")
    case True
    have "w' = ?w1" by (rule mp[OF conjunct1[OF conjunct2[OF ok]] True])
    then have e: "events w' = events w @ Query SelectActiveCount # []" and r: "registry w' = registry w"
      by (simp_all add: events_emit)
    have x: "?xs = []" using len True by simp
    have f: "filter active (registry w) = []" using N True by simp
    have p0: "?P = 0" using True by simp
    show ?thesis
      apply (intro exI[of _ "[]"] conjI)
              apply (rule e)
             apply (rule r)
            apply (simp only: P' p0 pages_fetched_simps upt_0 list.map)
           apply (simp only: p0 pages_fetched_simps list.size)
          apply (simp only: p0 batches_simps upt_0 list.map)
         apply (simp only: p0 not_less_zero simp_thms)
        apply (simp only: x batches_simps concat.simps list.map)
       apply (simp only: f batches_simps concat.simps list.map)
      apply (simp only: batches_simps concat.simps distinct.simps simp_thms)
      done
  next
    case False
    have "\<exists>sent failed.
        page_loop send dbf ?msg 20 (nat \<lceil>real N / real (20::nat)\<rceil>) 0 (0, 0) ?w1
               = (Inr (sent, failed), w')"
      by (rule mp[OF conjunct2[OF conjunct2[OF ok]] False])
    then obtain sent failed where
      loop: "page_loop send dbf ?msg 20 (nat \<lceil>real N / real (20::nat)\<rceil>) 0 (0, 0) ?w1
               = (Inr (sent, failed), w')"
      by (elim exE)
    have loop': "page_loop send dbf ?msg 20 ?P 0 (0, 0) ?w1 = (Inr (sent, failed), w')"
      using loop unfolding P .
    from page_loop_Inr[OF loop'] obtain new where
      new: "events w' = events ?w1 @ new"
        "pages_fetched new = map (\<lambda>k. (20, k * 20)) [0..<?P]"
        "batches new = filter (\<lambda>x. x \<noteq> [])
          (map (\<lambda>k. map fcm_token (take 20 (drop (k * 20) (active_ordered (registry ?w1))))) [0..<?P])"
        "\<forall>k. 0 \<le> k \<and> k < ?P \<longrightarrow> dbf (SelectActivePage 20 (k * 20)) = None"
      by (elim exE conjE) (rule that; assumption)
    have ne: "?pg k \<noteq> []" if "k < ?P" for k
      using page_within[OF that] len by simp
    have b: "batches new = map ?pg [0..<?P]"
    proof -
      have "filter (\<lambda>x. x \<noteq> []) (map ?pg [0..<?P]) = map ?pg [0..<?P]"
        using ne by (simp add: filter_id_conv)
      then show ?thesis using new(3) by (simp add: events_emit)
    qed
    have e: "events w' = events w @ Query SelectActiveCount # new"
      using new(1) by (simp add: events_emit)
    have reg: "registry w' = registry w"
      using page_loop_registry[OF loop'] by (simp add: events_emit)
    have pf: "pages_fetched new = map (\<lambda>k. (20, k * 20)) [0..<nat \<lceil>real N / 20\<rceil>]"
      using new(2) unfolding P' .
    have lp: "length (pages_fetched new) = ?P" unfolding new(2) by simp
    have pk: "\<forall>k < ?P. getAllActiveTokensPage dbf 20 (k * 20) (registry w) = Inr (batches new ! k)"
      using new(4) unfolding b by (simp add: getAllActiveTokensPage_Inr)
    have "concat (map ?pg [0..<?P])
            = concat (map (\<lambda>k. take 20 (drop (k * 20) (map fcm_token ?xs))) [0..<?P])"
      by (simp add: take_map drop_map)
    also have "\<dots> = take (?P * 20) (map fcm_token ?xs)" by (rule concat_pages)
    also have "\<dots> = map fcm_token ?xs"
      using pages_cover[of N] len by simp
    finally have c: "concat (batches new) = map fcm_token ?xs" unfolding b .
    have m: "mset (concat (batches new)) = mset (map fcm_token (filter active (registry w)))"
      unfolding c by (rule active_ordered_tokens)
    have d: "distinct (map fcm_token (registry w)) \<longrightarrow> distinct (concat (batches new))"
      unfolding c using active_ordered_distinct by blast
    show ?thesis
      by (intro exI[of _ new] conjI) (rule e reg pf lp b pk c m d)+
  qed
qed


lemma push_all_one_page:
  assumes req: "ti \<noteq> []" "bo \<noteq> []"
    and nf: "\<forall>q. dbf q = None"
    and n: "0 < length (filter active (registry w))" "length (filter active (registry w)) \<le> 20"
    and snd: "send (provider w)
                \<lparr>m_notification = Some (notification_of ''imageUrl'' ti bo img),
                 m_data = data, m_android = None\<rparr>
                (map fcm_token (active_ordered (registry w))) = (Inr resp, p')"
  shows "push_all send dbf (Some ti) (Some bo) data img w
           = ((200, [(''ok'', JBool True), (''sent'', JNum (int (successCount resp))),
                     (''failed'', JNum (int (failureCount resp)))]),
              w\<lparr>provider := p',
                events := events w @
                  [Query SelectActiveCount, Query (SelectActivePage 20 0),
                   Multicast \<lparr>m_notification = Some (notification_of ''imageUrl'' ti bo img),
                              m_data = data, m_android = None\<rparr>
                     (map fcm_token (active_ordered (registry w))) (Inr resp)]\<rparr>)"
proof -
  let ?N = "length (filter active (registry w))"
  let ?w1 = "emit (Query SelectActiveCount) w"
  let ?msg = "\<lparr>m_notification = Some (notification_of ''imageUrl'' ti bo img),
                           m_data = data, m_android = None\<rparr>"
  let ?toks = "map fcm_token (active_ordered (registry w))"
  let ?w2 = "emit (Multicast ?msg ?toks (Inr resp))
               (emit (Query (SelectActivePage 20 (0 * 20))) (?w1\<lparr>provider := p'\<rparr>))"
  have cnt: "getActiveTokensCount dbf (registry w) = Inr ?N"
    using nf by (simp add: getActiveTokensCount_def)
  have "(?N + 20 - 1) div 20 = 1" using n by presburger
  then have P: "nat \<lceil>real ?N / real (20::nat)\<rceil> = 1"
    using ceiling_pages[of 20 ?N] by (simp only: zero_less_numeral simp_thms)
  have len: "length (active_ordered (registry w)) = ?N" by (simp add: active_ordered_def)
  have pg: "getAllActiveTokensPage dbf 20 (0 * 20) (registry ?w1) = Inr ?toks"
    using nf n len by (simp add: getAllActiveTokensPage_def events_emit)
  have ne: "?toks \<noteq> []" using n len by auto
  have snd': "send (provider ?w1) ?msg ?toks = (Inr resp, p')"
    using snd by (simp add: events_emit)
  have l2: "page_loop send dbf ?msg 20 1 (0 + 1) (0 + successCount resp, 0 + failureCount resp) ?w2
              = (Inr (0 + successCount resp, 0 + failureCount resp), ?w2)"
    by (subst page_loop.simps) simp
  have l1: "page_loop send dbf ?msg 20 1 0 (0, 0) ?w1
              = (Inr (0 + successCount resp, 0 + failureCount resp), ?w2)"
    by (subst page_loop.simps) (simp only: pg ne snd' l2 zero_less_one if_True if_False sum.case prod.case)
  have "push_all send dbf (Some ti) (Some bo) data img w
          = ((200, [(''ok'', JBool True), (''sent'', JNum (int (0 + successCount resp))),
                     (''failed'', JNum (int (0 + failureCount resp)))]), ?w2)"
    using n(1) by (simp only: push_all_valid[OF req] cnt sum.case P l1 prod.case if_False
        length_greater_0_conv length_0_conv simp_thms)
  then show ?thesis by (simp add: emit_def)
qed


section \<open>Proofs: pruning of dead tokens\<close>

lemma dead_of_batch_iff:
  "x \<in> set (dead_of_batch part rs) \<longleftrightarrow>
     (\<exists>idx < length rs. \<not> success (rs ! idx) \<and> is_dead_code (code_of (rs ! idx))
        \<and> x = js_index part idx)"
proof
  assume "x \<in> set (dead_of_batch part rs)"
  then obtain idx r where "(idx, r) \<in> set (enumerate 0 rs)" "\<not> success r"
    "is_dead_code (code_of r)" "x = js_index part idx"
    by (auto simp: dead_of_batch_def)
  then show "\<exists>idx < length rs. \<not> success (rs ! idx) \<and> is_dead_code (code_of (rs ! idx))
        \<and> x = js_index part idx"
    by (auto simp: in_set_enumerate_eq)
next
  assume "\<exists>idx < length rs. \<not> success (rs ! idx) \<and> is_dead_code (code_of (rs ! idx))
        \<and> x = js_index part idx"
  then obtain idx where i: "idx < length rs" "\<not> success (rs ! idx)"
    "is_dead_code (code_of (rs ! idx))" "x = js_index part idx" by blast
  then have "(idx, rs ! idx) \<in> set (enumerate 0 rs)" by (simp add: in_set_enumerate_eq)
  then have "(idx, rs ! idx) \<in> set (filter (\<lambda>(idx, r). \<not> success r \<and> is_dead_code (code_of r))
                                     (enumerate 0 rs))"
    using i by simp
  then have "(\<lambda>(idx, r). js_index part idx) (idx, rs ! idx) \<in> set (dead_of_batch part rs)"
    unfolding dead_of_batch_def set_map by (rule imageI)
  then show "x \<in> set (dead_of_batch part rs)" using i(4) by simp
qed

lemma failure_collected:
  assumes "idx < length (responses r)" "idx < length part"
    and "\<not> success (responses r ! idx)" "is_dead_code (code_of (responses r ! idx))"
  shows "Some (part ! idx) \<in> set (reported_dead (Multicast m part (Inr r)))"
proof -
  have "js_index part idx = Some (part ! idx)" using assms(2) by (simp add: js_index_def)
  then show ?thesis using assms(1,3,4) by (auto simp: dead_of_batch_iff)
qed

lemma pruned_absent:
  assumes "tbl' = filter (\<lambda>x. Some (fcm_token x) \<notin> D) tbl" "Some t \<in> D"
  shows "t \<notin> fcm_token ` set tbl'"
  using assms by auto

lemma absent_lookup:
  assumes "t \<notin> fcm_token ` set tbl" "getTokensByUserId dbf u tbl = Inr ts"
  shows "t \<notin> set ts"
  using assms by (auto simp: getTokensByUserId_def split: option.splits)

lemma absent_lookup_base:
  assumes "t \<notin> fcm_token ` set tbl" "getTokensByUserId_base dbf u tbl = Inr ts"
  shows "t \<notin> set ts"
  using assms by (auto simp: getTokensByUserId_base_def split: option.splits)

lemma dispatch_user_pruned:
  assumes run: "dispatch_user err send dbf msg cs w = ((200, body), w')"
    and err: "\<And>e. fst (err e) \<noteq> 200"
  shows "\<exists>new. events w' = events w @ new
       \<and> registry w' = filter (\<lambda>x. Some (fcm_token x) \<notin> set (concat (map reported_dead new)))
                          (registry w)"
proof -
  from dispatch_user_run[OF run] obtain new where
    e: "events w' = events w @ new"
    and d: "(\<exists>e. (200::nat, body) = err e)
          \<or> (\<exists>sent failed. (200::nat, body) = (200, [(''ok'', JBool True), (''sent'', JNum (int sent)),
                       (''failed'', JNum (int failed)),
                       (''removedDead'', JNum (int (length (concat (map reported_dead new)))))])
               \<and> sent + failed = sum_list (map counted new) \<and> (\<forall>x \<in> set new. \<not> raised x)
               \<and> registry w' = filter (\<lambda>x. Some (fcm_token x) \<notin> set (concat (map reported_dead new)))
                                  (registry w))"
    by (elim exE conjE) (rule that; assumption)
  have no: "\<not> (\<exists>e. (200::nat, body) = err e)"
  proof
    assume "\<exists>e. (200::nat, body) = err e"
    then obtain e where "(200::nat, body) = err e" by (elim exE)
    then have "fst (err e) = 200" by (metis fst_conv)
    then show False using err by simp
  qed
  from d have "registry w' = filter (\<lambda>x. Some (fcm_token x) \<notin> set (concat (map reported_dead new)))
                                  (registry w)"
  proof (rule disjE)
    assume "\<exists>e. (200::nat, body) = err e"
    with no show ?thesis by (rule notE)
  next
    assume "\<exists>sent failed. (200::nat, body) = (200, [(''ok'', JBool True), (''sent'', JNum (int sent)),
                       (''failed'', JNum (int failed)),
                       (''removedDead'', JNum (int (length (concat (map reported_dead new)))))])
               \<and> sent + failed = sum_list (map counted new) \<and> (\<forall>x \<in> set new. \<not> raised x)
               \<and> registry w' = filter (\<lambda>x. Some (fcm_token x) \<notin> set (concat (map reported_dead new)))
                                  (registry w)"
    then show ?thesis by (elim exE conjE)
  qed
  then show ?thesis using e by (intro exI[of _ new] conjI)
qed

lemma with_lookup_event:
  assumes "events w' = events (emit (Query q) w) @ new"
    and "registry w' = filter (\<lambda>x. Some (fcm_token x) \<notin> set (concat (map reported_dead new)))
                          (registry (emit (Query q) w))"
  shows "\<exists>new. events w' = events w @ new
       \<and> registry w' = filter (\<lambda>x. Some (fcm_token x) \<notin> set (concat (map reported_dead new)))
                          (registry w)"
  using assms by (intro exI[of _ "Query q # new"]) (simp add: events_emit)

lemma only_lookup_event:
  assumes "w' = emit (Query q) w"
  shows "\<exists>new. events w' = events w @ new
       \<and> registry w' = filter (\<lambda>x. Some (fcm_token x) \<notin> set (concat (map reported_dead new)))
                          (registry w)"
  using assms by (intro exI[of _ "[Query q]"]) (simp add: events_emit)

lemma push_user_pruned:
  assumes run: "push_user send dbf userId title body data img w = Some ((200, b), w')"
  shows "\<exists>new. events w' = events w @ new
       \<and> registry w' = filter (\<lambda>x. Some (fcm_token x) \<notin> set (concat (map reported_dead new)))
                          (registry w)"
proof (cases "\<exists>u ti bo. userId = Some u \<and> u \<noteq> 0 \<and> title = Some ti \<and> ti \<noteq> [] \<and> body = Some bo \<and> bo \<noteq> []")
  case False
  then have "push_user send dbf userId title body data img w
               = Some (sendError 400 ''userId, title, body are required'', w)"
    by (cases userId; cases title; cases body) (auto simp: push_user_def or_null_def)
  then have "sendError 400 ''userId, title, body are required'' = (200, b)" using run by simp
  then show ?thesis by (simp add: sendError_def)
next
  case True
  then obtain u ti bo where v: "userId = Some u" "u \<noteq> 0" "title = Some ti" "ti \<noteq> []"
    "body = Some bo" "bo \<noteq> []" by blast
  let ?w1 = "emit (Query (SelectTokensByUser u)) w"
  show ?thesis
  proof (cases "getTokensByUserId dbf u (registry w)")
    case (Inl e)
    then have "push_user send dbf userId title body data img w = Some (sendError 500 e, ?w1)"
      using v by (simp add: push_user_def or_null_def)
    then have "sendError 500 e = (200, b)" using run by simp
    then show ?thesis by (simp add: sendError_def)
  next
    case (Inr tokens)
    note eq = push_user_valid[OF v(2,4,6) Inr, of send data img, folded v(1,3,5)]
    show ?thesis
    proof (cases "tokens = []")
      case True
      then have "w' = ?w1" using eq run by simp
      then show ?thesis by (rule only_lookup_event)
    next
      case False
      obtain cs where cs: "chunk tokens 500 = Some cs" using chunk_total[of 500 tokens] by auto
      have "dispatch_user (sendError 500) send dbf
                      \<lparr>m_notification = Some (notification_of ''imageUrl'' ti bo img),
                       m_data = data, m_android = None\<rparr> cs ?w1 = ((200, b), w')"
        using eq run False cs by simp
      from dispatch_user_pruned[OF this] obtain new where
        "events w' = events ?w1 @ new"
        "registry w' = filter (\<lambda>x. Some (fcm_token x) \<notin> set (concat (map reported_dead new)))
                          (registry ?w1)"
        by (auto simp: sendError_def)
      then show ?thesis by (rule with_lookup_event)
    qed
  qed
qed

lemma push_user_base_pruned:
  assumes run: "push_user_base send dbf userId title body data img w = Some ((200, b), w')"
  shows "\<exists>new. events w' = events w @ new
       \<and> registry w' = filter (\<lambda>x. Some (fcm_token x) \<notin> set (concat (map reported_dead new)))
                          (registry w)"
proof (cases "\<exists>u ti bo. userId = Some u \<and> u \<noteq> [] \<and> title = Some ti \<and> ti \<noteq> [] \<and> body = Some bo \<and> bo \<noteq> []")
  case False
  then have "push_user_base send dbf userId title body data img w
               = Some (bad_request_base ''userId, title, body are required'', w)"
    by (cases userId; cases title; cases body) (auto simp: push_user_base_def or_null_def)
  then have "bad_request_base ''userId, title, body are required'' = (200, b)" using run by simp
  then show ?thesis by (simp add: bad_request_base_def)
next
  case True
  then obtain u ti bo where v: "userId = Some u" "u \<noteq> []" "title = Some ti" "ti \<noteq> []"
    "body = Some bo" "bo \<noteq> []" by blast
  let ?w1 = "emit (Query (SelectTokensByUser u)) w"
  show ?thesis
  proof (cases "getTokensByUserId_base dbf u (registry w)")
    case (Inl e)
    then have "push_user_base send dbf userId title body data img w = Some (server_error_base e, ?w1)"
      using v by (simp add: push_user_base_def or_null_def)
    then have "server_error_base e = (200, b)" using run by simp
    then show ?thesis by (simp add: server_error_base_def)
  next
    case (Inr tokens)
    note eq = push_user_base_valid[OF v(2,4,6) Inr, of send data img, folded v(1,3,5)]
    show ?thesis
    proof (cases "tokens = []")
      case True
      then have "w' = ?w1" using eq run by simp
      then show ?thesis by (rule only_lookup_event)
    next
      case False
      obtain cs where cs: "chunk tokens 500 = Some cs" using chunk_total[of 500 tokens] by auto
      have "dispatch_user server_error_base send dbf
                      \<lparr>m_notification = Some (notification_of ''image'' ti bo img),
                       m_data = data, m_android = None\<rparr> cs ?w1 = ((200, b), w')"
        using eq run False cs by simp
      from dispatch_user_pruned[OF this] obtain new where
        "events w' = events ?w1 @ new"
        "registry w' = filter (\<lambda>x. Some (fcm_token x) \<notin> set (concat (map reported_dead new)))
                          (registry ?w1)"
        by (auto simp: server_error_base_def)
      then show ?thesis by (rule with_lookup_event)
    qed
  qed
qed


lemma harmless_events:
  assumes "events w' = events w @ new" "registry w' = registry w"
    and "concat (map reported_dead new) = []"
  shows "\<exists>new. events w' = events w @ new
       \<and> registry w' = filter (\<lambda>x. Some (fcm_token x) \<notin> set (concat (map reported_dead new)))
                          (registry w)"
  using assms by (intro exI[of _ new]) simp

lemma handler_pruned:
  assumes run: "handleSendUserNotification js send dbf data w = Some (Inr (), w')"
  shows "\<exists>new. events w' = events w @ new
       \<and> registry w' = filter (\<lambda>x. Some (fcm_token x) \<notin> set (concat (map reported_dead new)))
                          (registry w)"
proof (cases "userId_number js (userIdRaw_of data)")
  case NaN
  then have "w' = emit (ConsoleError InvalidUserId) w"
    using run handler_invalid_userId[of js data send dbf w] by simp
  then show ?thesis
    by (intro harmless_events[of _ _ "[ConsoleError InvalidUserId]"]) (simp_all add: events_emit)
next
  case (Num u)
  show ?thesis
  proof (cases "u = 0")
    case True
    then have "w' = emit (ConsoleError InvalidUserId) w"
      using run Num handler_invalid_userId[of js data send dbf w] by simp
    then show ?thesis
      by (intro harmless_events[of _ _ "[ConsoleError InvalidUserId]"]) (simp_all add: events_emit)
  next
    case nz: False
    show ?thesis
    proof (cases "field_or_empty data kd_title = [] \<or> field_or_empty data kd_body = []")
      case True
      then have "w' = emit (ConsoleError MissingTitleBody) w"
        using run handler_missing_text[OF Num nz True, of send dbf w] by simp
      then show ?thesis
        by (intro harmless_events[of _ _ "[ConsoleError MissingTitleBody]"]) (simp_all add: events_emit)
    next
      case False
      then have tb: "field_or_empty data kd_title \<noteq> []" "field_or_empty data kd_body \<noteq> []"
        by simp_all
      let ?q = "Query (SelectTokensByUser u)"
      let ?w1 = "emit ?q w"
      show ?thesis
      proof (cases "getTokensByUserId dbf u (registry w)")
        case (Inl e)
        then have "handleSendUserNotification js send dbf data w
            = Some (Inr (), emit (ConsoleError (LoadTokensFailed u e)) ?w1)"
          using Num nz tb by (simp add: handleSendUserNotification_def Let_def)
        then have "w' = emit (ConsoleError (LoadTokensFailed u e)) ?w1" using run by simp
        then show ?thesis
          by (intro harmless_events[of _ _ "[?q, ConsoleError (LoadTokensFailed u e)]"])
             (simp_all add: events_emit)
      next
        case (Inr tokens)
        note eq = handler_valid[OF Num nz tb Inr, of send]
        show ?thesis
        proof (cases "tokens = []")
          case True
          then have "w' = emit (ConsoleLog (NoActiveTokens u)) ?w1" using eq run by simp
          then show ?thesis
            by (intro harmless_events[of _ _ "[?q, ConsoleLog (NoActiveTokens u)]"])
               (simp_all add: events_emit)
        next
          case False
          obtain cs where cs: "chunk tokens 500 = Some cs" using chunk_total[of 500 tokens] by auto
          let ?msg = "\<lparr>m_notification = None,
                       m_data = Some [(''eventName'', ''SendUserNotification''),
                                      (''chatId'', field_or_empty data kd_chatId),
                                      (''title'', field_or_empty data kd_title),
                                      (''route'', field_or_empty data kd_route),
                                      (''body'', field_or_empty data kd_body),
                                      (''image'',
                                       case normalizeImageUrl js
                                              (case data of None \<Rightarrow> None | Some x \<Rightarrow> kd_image x) of
                                         None \<Rightarrow> []
                                       | Some u \<Rightarrow> u)],
                       m_android = Some [(''priority'', ''high'')]\<rparr>"
          have d: "kafka_dispatch send dbf ?msg u cs ?w1 = (Inr (), w')"
            using eq run False cs by simp
          from kafka_dispatch_run[OF d] obtain new where
            "events w' = events ?w1 @ new"
            "registry w' = filter (\<lambda>x. Some (fcm_token x) \<notin> set (concat (map reported_dead new)))
                            (registry ?w1)"
            by (elim exE conjE) (rule that, assumption, erule mp, rule refl)
          then show ?thesis by (rule with_lookup_event)
        qed
      qed
    qed
  qed
qed


lemma dead_code_example: "is_dead_code ''messaging/registration-token-not-registered''"
  unfolding is_dead_code_def js_includes_def
  by (rule disjI1) (rule sublist_appendI[of _ "''messaging/''" "[]", simplified])


lemma pruned_tokens_gone:
  assumes "\<exists>new. events w' = events w @ new
       \<and> registry w' = filter (\<lambda>x. Some (fcm_token x) \<notin> set (concat (map reported_dead new)))
                          (registry w)"
  shows "\<exists>new. events w' = events w @ new
       \<and> (\<forall>t. Some t \<in> set (concat (map reported_dead new)) \<longrightarrow> t \<notin> fcm_token ` set (registry w'))"
proof -
  from assms obtain new where e: "events w' = events w @ new"
    and r: "registry w' = filter (\<lambda>x. Some (fcm_token x) \<notin> set (concat (map reported_dead new)))
                          (registry w)"
    by (elim exE conjE)
  have "\<forall>t. Some t \<in> set (concat (map reported_dead new)) \<longrightarrow> t \<notin> fcm_token ` set (registry w')"
    using pruned_absent[OF r] by blast
  then show ?thesis using e by (intro exI[of _ new] conjI)
qed

text \<open>
  The paths that prune. A per-token failure whose code contains
  \<^verbatim>\<open>registration-token-not-registered\<close> or \<^verbatim>\<open>invalid-registration-token\<close> is collected into
  the dead-token list of its batch. On the user-targeted path (POST /push/user of both
  servers), when the request is answered 200, and on the event-bus path, when the handler
  returns normally, every token collected during the run has been deleted with
  \<^verbatim>\<open>deleteToken\<close>: it is the token of no row of the registry, and a token that is in no row
  is in no later user lookup. POST /push/all and POST /push/token never change the
  registry.
\<close>

lemma sibling_paths_prune:
  "(\<forall>m part r idx. idx < length (responses r) \<and> idx < length part
        \<and> \<not> success (responses r ! idx) \<and> is_dead_code (code_of (responses r ! idx))
      \<longrightarrow> Some (part ! idx) \<in> set (reported_dead (Multicast m part (Inr r) :: 'v event)))
   \<and> (\<forall>b w'. push_user send dbf userId title body data img w = Some ((200, b), w') \<longrightarrow>
        (\<exists>new. events w' = events w @ new
           \<and> (\<forall>t. Some t \<in> set (concat (map reported_dead new))
                 \<longrightarrow> t \<notin> fcm_token ` set (registry w'))))
   \<and> (\<forall>b w'. push_user_base sendb dbfb userIdb title body data img wb = Some ((200, b), w') \<longrightarrow>
        (\<exists>new. events w' = events wb @ new
           \<and> (\<forall>t. Some t \<in> set (concat (map reported_dead new))
                 \<longrightarrow> t \<notin> fcm_token ` set (registry w'))))
   \<and> (\<forall>w'. handleSendUserNotification js send dbf kdata w = Some (Inr (), w') \<longrightarrow>
        (\<exists>new. events w' = events w @ new
           \<and> (\<forall>t. Some t \<in> set (concat (map reported_dead new))
                 \<longrightarrow> t \<notin> fcm_token ` set (registry w'))))
   \<and> (\<forall>tbl t dbf' u ts. t \<notin> fcm_token ` set tbl \<longrightarrow>
          (getTokensByUserId dbf' u tbl = Inr ts \<longrightarrow> t \<notin> set ts))
   \<and> (\<forall>tbl t dbf' u ts. t \<notin> fcm_token ` set (tbl :: string device_base list) \<longrightarrow>
          (getTokensByUserId_base dbf' u tbl = Inr ts \<longrightarrow> t \<notin> set ts))
   \<and> (\<forall>resp w'. push_all send dbf title body data img w = (resp, w') \<longrightarrow> registry w' = registry w)
   \<and> (\<forall>resp w'. push_token send1 token title body data img w = (resp, w')
          \<longrightarrow> registry w' = registry w)"
proof (intro conjI allI impI)
  fix m and part :: "string list" and r :: batch_response and idx
  assume "idx < length (responses r) \<and> idx < length part
        \<and> \<not> success (responses r ! idx) \<and> is_dead_code (code_of (responses r ! idx))"
  then show "Some (part ! idx) \<in> set (reported_dead (Multicast m part (Inr r) :: 'v event))"
    by (intro failure_collected) simp_all
next
  fix b w' assume "push_user send dbf userId title body data img w = Some ((200, b), w')"
  then show "\<exists>new. events w' = events w @ new
           \<and> (\<forall>t. Some t \<in> set (concat (map reported_dead new))
                 \<longrightarrow> t \<notin> fcm_token ` set (registry w'))"
    by (intro pruned_tokens_gone push_user_pruned)
next
  fix b w' assume "push_user_base sendb dbfb userIdb title body data img wb = Some ((200, b), w')"
  then show "\<exists>new. events w' = events wb @ new
           \<and> (\<forall>t. Some t \<in> set (concat (map reported_dead new))
                 \<longrightarrow> t \<notin> fcm_token ` set (registry w'))"
    by (intro pruned_tokens_gone push_user_base_pruned)
next
  fix w' assume "handleSendUserNotification js send dbf kdata w = Some (Inr (), w')"
  then show "\<exists>new. events w' = events w @ new
           \<and> (\<forall>t. Some t \<in> set (concat (map reported_dead new))
                 \<longrightarrow> t \<notin> fcm_token ` set (registry w'))"
    by (intro pruned_tokens_gone handler_pruned)
next
  fix tbl :: "int device list" and t dbf' u ts
  assume "t \<notin> fcm_token ` set tbl" "getTokensByUserId dbf' u tbl = Inr ts"
  then show "t \<notin> set ts" by (rule absent_lookup)
next
  fix tbl :: "string device_base list" and t dbf' u ts
  assume "t \<notin> fcm_token ` set tbl" "getTokensByUserId_base dbf' u tbl = Inr ts"
  then show "t \<notin> set ts" by (rule absent_lookup_base)
next
  fix resp w' assume "push_all send dbf title body data img w = (resp, w')"
  then show "registry w' = registry w" by (rule push_all_registry)
next
  fix resp w' assume "push_token send1 token title body data img w = (resp, w')"
  then show "registry w' = registry w" by (rule push_token_registry)
qed


text \<open>
  Claim C2. Every dispatch path is to collect the tokens whose failure code says
  unregistered or malformed and to delete them from the registry when the dispatch is
  over, so that no later user lookup returns them. The user-targeted and event-bus paths
  do; the broadcast and single-token paths do not. On a registry whose only token the
  provider reports as \<^verbatim>\<open>messaging/registration-token-not-registered\<close>, POST /push/user
  answers \<^verbatim>\<open>removedDead: 1\<close> and leaves the registry empty, while POST /push/all, on the same
  registry with the same provider, answers 200 with one failure and the token is still
  returned by the next lookup of its user. POST /push/token, when the provider rejects
  the token, answers 500 and the token stays as well.
\<close>

theorem broadcast_keeps_dead_token:
  "is_dead_code ''messaging/registration-token-not-registered''
   \<and> push_user
       (\<lambda>p m ts. (Inr \<lparr>responses = map (\<lambda>_. \<lparr>success = False,
                            error_code = Some ''messaging/registration-token-not-registered'',
                            error_message = None\<rparr>) ts,
                     successCount = 0, failureCount = length ts\<rparr>, p))
       (\<lambda>_. None) (Some 7) (Some ''Hi'') (Some ''there'') None None
       \<lparr>registry =
          [\<lparr>device_id = ''d1'', user_id = Some (7::int), fcm_token = ''tok-a'', platform = None,
            app_version = None, created_at = 1, updated_at = 1, game_id = Some 3, active = True\<rparr>],
        provider = (), events = []\<rparr>
     = Some ((200, [(''ok'', JBool True), (''sent'', JNum 0), (''failed'', JNum 1),
                    (''removedDead'', JNum 1)]),
             \<lparr>registry = [], provider = (),
              events =
                [Query (SelectTokensByUser 7),
                 Multicast \<lparr>m_notification = Some (notification_of ''imageUrl'' ''Hi'' ''there'' None),
                            m_data = None, m_android = None\<rparr>
                   [''tok-a'']
                   (Inr \<lparr>responses = [\<lparr>success = False,
                            error_code = Some ''messaging/registration-token-not-registered'',
                            error_message = None\<rparr>],
                         successCount = 0, failureCount = 1\<rparr>),
                 Query (DeleteByToken (Some ''tok-a''))]\<rparr>)
   \<and> (\<exists>w'. push_all
          (\<lambda>p m ts. (Inr \<lparr>responses = map (\<lambda>_. \<lparr>success = False,
                               error_code = Some ''messaging/registration-token-not-registered'',
                               error_message = None\<rparr>) ts,
                        successCount = 0, failureCount = length ts\<rparr>, p))
          (\<lambda>_. None) (Some ''Hi'') (Some ''there'') None None
          \<lparr>registry =
             [\<lparr>device_id = ''d1'', user_id = Some (7::int), fcm_token = ''tok-a'', platform = None,
               app_version = None, created_at = 1, updated_at = 1, game_id = Some 3, active = True\<rparr>],
           provider = (), events = []\<rparr>
        = ((200, [(''ok'', JBool True), (''sent'', JNum 0), (''failed'', JNum 1)]), w')
      \<and> batches (events w') = [[''tok-a'']]
      \<and> getTokensByUserId (\<lambda>_. None) 7 (registry w') = Inr [''tok-a''])
   \<and> (\<exists>w'. push_token (\<lambda>p m tok. (Inl ''Requested entity was not found.'', p))
          (Some ''tok-a'') (Some ''Hi'') (Some ''there'') None None
          \<lparr>registry =
             [\<lparr>device_id = ''d1'', user_id = Some (7::int), fcm_token = ''tok-a'', platform = None,
               app_version = None, created_at = 1, updated_at = 1, game_id = Some 3, active = True\<rparr>],
           provider = (), events = ([] :: int event list)\<rparr>
        = ((500, [(''ok'', JBool False), (''message'', JStr ''Requested entity was not found.'')]), w')
      \<and> getTokensByUserId (\<lambda>_. None) 7 (registry w') = Inr [''tok-a''])"
proof -
  let ?r = "\<lparr>device_id = ''d1'', user_id = Some (7::int), fcm_token = ''tok-a'', platform = None,
            app_version = None, created_at = 1, updated_at = 1, game_id = Some 3, active = True\<rparr>"
  let ?w = "\<lparr>registry = [?r], provider = (), events = ([] :: int event list)\<rparr>"
  let ?bad = "\<lparr>success = False, error_code = Some ''messaging/registration-token-not-registered'',
               error_message = None\<rparr>"
  let ?send = "\<lambda>(p::unit) (m::message) (ts::string list).
                 (Inr \<lparr>responses = map (\<lambda>_. ?bad) ts, successCount = 0, failureCount = length ts\<rparr>
                    :: string + batch_response, p)"
  let ?msg = "\<lparr>m_notification = Some (notification_of ''imageUrl'' ''Hi'' ''there'' None),
                          m_data = None, m_android = None\<rparr>"
  let ?evs = "[Query (SelectTokensByUser 7),
               Multicast ?msg [''tok-a'']
                 (Inr \<lparr>responses = [?bad], successCount = 0, failureCount = 1\<rparr>),
               Query (DeleteByToken (Some ''tok-a''))] :: int event list"
  let ?w' = "\<lparr>registry = ([] :: int device list), provider = (), events = ?evs\<rparr>"
  let ?send1 = "\<lambda>(p::unit) (m::message) (tok::string).
                  (Inl ''Requested entity was not found.'' :: string + string, p)"
  have u: "(7::int) \<noteq> 0" and ti: "''Hi'' \<noteq> []" and bo: "''there'' \<noteq> []" by simp_all
  have look: "getTokensByUserId (\<lambda>_. None) 7 (registry ?w) = Inr [''tok-a'']"
    by (simp add: getTokensByUserId_def)
  have c: "chunk [''tok-a''] 500 = Some [[''tok-a'']]" by (rule chunk_single) simp_all
  have dead: "dead_of_batch [''tok-a''] [?bad] = [Some ''tok-a'']"
    by (simp add: dead_of_batch_def js_index_def code_of_def dead_code_example)
  have user: "push_user ?send (\<lambda>_. None) (Some 7) (Some ''Hi'') (Some ''there'') None None ?w
      = Some ((200, [(''ok'', JBool True), (''sent'', JNum 0), (''failed'', JNum 1),
                  (''removedDead'', JNum 1)]), ?w')"
    unfolding push_user_valid[OF u ti bo look]
    by (simp add: c dispatch_user_def emit_def dead deleteToken_def)
  have a1: "\<forall>q::int stmt. (\<lambda>_. None :: string option) q = None" by simp
  have a2: "0 < length (filter active (registry ?w))" by simp
  have a3: "length (filter active (registry ?w)) \<le> 20" by simp
  have a4: "?send (provider ?w) ?msg (map fcm_token (active_ordered (registry ?w)))
              = (Inr \<lparr>responses = [?bad], successCount = 0, failureCount = 1\<rparr>, ())"
    by (simp add: active_ordered_def)
  note one = push_all_one_page[where dbf="\<lambda>_. None" and send="?send" and w="?w", OF ti bo a1 a2 a3 a4]
  let ?wa = "\<lparr>registry = [?r], provider = (),
               events = [Query SelectActiveCount, Query (SelectActivePage 20 0),
                         Multicast ?msg [''tok-a'']
                           (Inr \<lparr>responses = [?bad], successCount = 0, failureCount = 1\<rparr>)]
                 :: int event list\<rparr>"
  have run0: "push_all ?send (\<lambda>_. None) (Some ''Hi'') (Some ''there'') None None ?w
            = ((200, [(''ok'', JBool True), (''sent'', JNum 0), (''failed'', JNum 1)]), ?wa)"
    using one by (simp add: active_ordered_def)
  obtain w' where
    run: "push_all ?send (\<lambda>_. None) (Some ''Hi'') (Some ''there'') None None ?w
            = ((200, [(''ok'', JBool True), (''sent'', JNum 0), (''failed'', JNum 1)]), w')"
    and ev: "events w' = [Query SelectActiveCount, Query (SelectActivePage 20 0),
                          Multicast ?msg [''tok-a''] (Inr \<lparr>responses = [?bad], successCount = 0,
                                                             failureCount = 1\<rparr>)]"
    by (rule that[of ?wa, OF run0]) simp
  have bt: "batches (events w') = [[''tok-a'']]" unfolding ev by (simp add: batches_simps)
  have "registry w' = registry ?w" using run by (rule push_all_registry)
  then have still: "getTokensByUserId (\<lambda>_. None) 7 (registry w') = Inr [''tok-a'']"
    by (simp add: getTokensByUserId_def)
  have all: "\<exists>w'. push_all ?send (\<lambda>_. None) (Some ''Hi'') (Some ''there'') None None ?w
            = ((200, [(''ok'', JBool True), (''sent'', JNum 0), (''failed'', JNum 1)]), w')
      \<and> batches (events w') = [[''tok-a'']]
      \<and> getTokensByUserId (\<lambda>_. None) 7 (registry w') = Inr [''tok-a'']"
    using run bt still by (intro exI[of _ w'] conjI)
  obtain w1 where
    one_run: "push_token ?send1 (Some ''tok-a'') (Some ''Hi'') (Some ''there'') None None ?w
            = ((500, [(''ok'', JBool False), (''message'', JStr ''Requested entity was not found.'')]), w1)"
    by (simp add: push_token_def or_null_def sendError_def)
  have "registry w1 = registry ?w" using one_run by (rule push_token_registry)
  then have "getTokensByUserId (\<lambda>_. None) 7 (registry w1) = Inr [''tok-a'']"
    by (simp add: getTokensByUserId_def)
  then have single: "\<exists>w'. push_token ?send1 (Some ''tok-a'') (Some ''Hi'') (Some ''there'') None None ?w
            = ((500, [(''ok'', JBool False), (''message'', JStr ''Requested entity was not found.'')]), w')
      \<and> getTokensByUserId (\<lambda>_. None) 7 (registry w') = Inr [''tok-a'']"
    using one_run by (intro exI[of _ w1] conjI)
  show ?thesis by (intro conjI) (rule dead_code_example user all single)+
qed

section \<open>Proofs: one row per device and per token\<close>

lemma upsert_row_in_place:
  fixes tbl :: "('u, 'z) device_base_scheme list"
  assumes t1: "t1 = filter (\<lambda>r. \<not> (fcm_token r = t \<and> device_id r \<noteq> d)) tbl"
    and t2: "t2 = map (\<lambda>r. if device_id r = d then soft r else r) t1"
    and soft: "\<And>r. device_id (soft r) = device_id r" "\<And>r. created_at (soft r) = created_at r"
    and ins: "insert_on_conflict new upd t2 = Inr (t3, rows)"
    and new: "device_id new = d"
    and upd: "\<And>r. device_id (upd r) = device_id r" "\<And>r. created_at (upd r) = created_at r"
    and r: "r \<in> set tbl" "device_id r = d"
  shows "\<exists>r' \<in> set t3. device_id r' = d \<and> created_at r' = created_at r"
proof -
  have "r \<in> set t1" unfolding t1 using r by simp
  then have in2: "soft r \<in> set t2" unfolding t2 using r(2) by (auto simp: image_iff intro!: bexI[of _ r])
  have k: "device_id (soft r) = d" using r(2) soft(1) by simp
  then have "d \<in> device_id ` set t2" using in2 by (metis image_eqI)
  then have t3: "t3 = map (\<lambda>x. if device_id x = d then upd x else x) t2"
    using ins by (simp add: insert_on_conflict_Inr new)
  have "upd (soft r) \<in> set t3" unfolding t3 using in2 k by (auto simp: image_iff intro!: bexI[of _ "soft r"])
  moreover have "device_id (upd (soft r)) = d" using k upd(1) by simp
  moreover have "created_at (upd (soft r)) = created_at r" using upd(2) soft(2) by simp
  ultimately show ?thesis by blast
qed

lemma upsertDevice_in_place:
  assumes idle: "pending s = None"
    and run: "upsertDevice dbf now d u g t p a s = (Inr res, s')"
    and r: "r \<in> set (committed s)" "device_id r = d"
  shows "\<exists>r' \<in> set (committed s'). device_id r' = d \<and> created_at r' = created_at r"
proof -
  from run have "upsertDevice_try dbf now d u g t p a s = (Inr res, s')"
    by (simp add: upsertDevice_Inr)
  from upsertDevice_try_Inr[OF this] obtain t1 t2 t3 rows where
    t1: "delete_other_holder t d (current s) = Inr (t1, ())"
    and t2: "deactivate d t1 = Inr (t2, ())"
    and ins: "insert_on_conflict
                   \<lparr>device_id = d, user_id = u, fcm_token = t,
                    platform = or_null p, app_version = or_null a,
                    created_at = now, updated_at = now, game_id = g, active = True\<rparr>
                   (\<lambda>r. r\<lparr>user_id := u, game_id := g, fcm_token := t,
                          platform := or_null p, app_version := or_null a,
                          active := True, updated_at := now\<rparr>) t2 = Inr (t3, rows)"
    and s': "s' = \<lparr>committed = t3, pending = None\<rparr>"
    by blast
  have t1': "t1 = filter (\<lambda>r. \<not> (fcm_token r = t \<and> device_id r \<noteq> d)) (committed s)"
    using t1 idle by (simp add: delete_other_holder_Inr current_def)
  have t2': "t2 = map (\<lambda>r. if device_id r = d then r\<lparr>active := False\<rparr> else r) t1"
    using t2 by (simp add: deactivate_Inr)
  have "\<exists>r' \<in> set t3. device_id r' = d \<and> created_at r' = created_at r"
    by (rule upsert_row_in_place[OF t1' t2' _ _ ins _ _ _ r]) simp_all
  then show ?thesis using s' by simp
qed

lemma upsertDevice_base_in_place:
  assumes idle: "pending s = None"
    and run: "upsertDevice_base dbf now d u t p a s = (Inr res, s')"
    and r: "r \<in> set (committed s)" "device_id r = d"
  shows "\<exists>r' \<in> set (committed s'). device_id r' = d \<and> created_at r' = created_at r"
proof -
  from run have "upsertDevice_base_try dbf now d u t p a s = (Inr res, s')"
    by (simp add: upsertDevice_base_Inr)
  from upsertDevice_base_try_Inr[OF this] obtain t1 t3 rows where
    t1: "delete_other_holder t d (current s) = Inr (t1, ())"
    and ins: "insert_on_conflict
                   \<lparr>device_id = d, user_id = or_null u, fcm_token = t,
                    platform = or_null p, app_version = or_null a,
                    created_at = now, updated_at = now\<rparr>
                   (\<lambda>r. r\<lparr>user_id := or_null u, fcm_token := t,
                          platform := or_null p, app_version := or_null a,
                          updated_at := now\<rparr>) t1 = Inr (t3, rows)"
    and s': "s' = \<lparr>committed = t3, pending = None\<rparr>"
    by blast
  have t1': "t1 = filter (\<lambda>r. \<not> (fcm_token r = t \<and> device_id r \<noteq> d)) (committed s)"
    using t1 idle by (simp add: delete_other_holder_Inr current_def)
  have t2': "t1 = map (\<lambda>r. if device_id r = d then r else r) t1"
    by simp
  have "\<exists>r' \<in> set t3. device_id r' = d \<and> created_at r' = created_at r"
    by (rule upsert_row_in_place[OF t1' t2' _ _ ins _ _ _ r]) simp_all
  then show ?thesis using s' by simp
qed

lemma upsertDevice_returns:
  assumes inv: "registry_inv tbl" and nf: "\<forall>q. dbf q = None"
  shows "\<exists>s'. upsertDevice dbf now d u g t p a \<lparr>committed = tbl, pending = None\<rparr>
                 = (Inr (d, u, t), s')"
proof -
  let ?s = "\<lparr>committed = tbl, pending = None\<rparr>"
  obtain res s' where run: "upsertDevice dbf now d u g t p a ?s = (Inr res, s')"
    using upsertDevice_no_fault[of dbf ?s now d u g t p a] nf by auto
  have "res = (d, u, t)" using upsertDevice_success[of ?s dbf now d u g t p a res s'] inv run by simp
  then show ?thesis using run by (intro exI[of _ s']) simp
qed

lemma upsertDevice_base_returns:
  assumes inv: "registry_inv tbl" and nf: "\<forall>q. dbf q = None"
  shows "\<exists>s'. upsertDevice_base dbf now d u t p a \<lparr>committed = tbl, pending = None\<rparr>
                 = (Inr (d, or_null u, t), s')"
proof -
  let ?s = "\<lparr>committed = tbl, pending = None\<rparr>"
  obtain res s' where run: "upsertDevice_base dbf now d u t p a ?s = (Inr res, s')"
    using upsertDevice_base_no_fault[of dbf ?s now d u t p a] nf by auto
  have "res = (d, or_null u, t)"
    using upsertDevice_base_success[of ?s dbf now d u t p a res s'] inv run by simp
  then show ?thesis using run by (intro exI[of _ s']) simp
qed


text \<open>
  Claim C3. On a table with one row per device id and per token, every registry
  operation of both variants (\<^verbatim>\<open>upsertDevice\<close> whether it returns or raises,
  \<^verbatim>\<open>deleteToken\<close>, \<^verbatim>\<open>deleteDeviceByIdentifiers\<close>) leaves a table with one row per device
  id and per token. An upsert of device \<open>d\<close> with token \<open>t\<close> returns whenever the database
  does not raise, for a new device as for one registered already, and answers the
  identifiers it wrote. After it a row holds \<open>t\<close> exactly when it is the row of \<open>d\<close> (the
  binding of \<open>t\<close> to another device is gone), there is exactly one row of \<open>d\<close>, the rows
  of the other devices are the old ones minus the old holder of \<open>t\<close> (as a multiset: the
  order of the rows of a table means nothing), and when \<open>d\<close> was registered already its
  row is the old one updated, with the \<^verbatim>\<open>created_at\<close> it had: no second row is made.
\<close>

theorem registry_keys_stay_unique:
  assumes inv: "registry_inv tbl" and invb: "registry_inv tblb"
  shows "(\<forall>r s'. upsertDevice dbf now d u g t p a \<lparr>committed = tbl, pending = None\<rparr> = (r, s')
            \<longrightarrow> registry_inv (committed s'))
       \<and> ((\<forall>q. dbf q = None) \<longrightarrow>
            (\<exists>s'. upsertDevice dbf now d u g t p a \<lparr>committed = tbl, pending = None\<rparr>
                     = (Inr (d, u, t), s')))
       \<and> (\<forall>res s'. upsertDevice dbf now d u g t p a \<lparr>committed = tbl, pending = None\<rparr> = (Inr res, s')
            \<longrightarrow> res = (d, u, t) \<and> pending s' = None
              \<and> (\<forall>r \<in> set (committed s'). fcm_token r = t \<longleftrightarrow> device_id r = d)
              \<and> length (filter (\<lambda>r. device_id r = d) (committed s')) = 1
              \<and> mset (filter (\<lambda>r. device_id r \<noteq> d) (committed s'))
                  = mset (filter (\<lambda>r. device_id r \<noteq> d \<and> fcm_token r \<noteq> t) tbl)
              \<and> (\<forall>r \<in> set tbl. device_id r = d \<longrightarrow>
                   (\<exists>r' \<in> set (committed s'). device_id r' = d \<and> created_at r' = created_at r)))
       \<and> (\<forall>r s'. upsertDevice_base dbfb now d ub t p a \<lparr>committed = tblb, pending = None\<rparr> = (r, s')
            \<longrightarrow> registry_inv (committed s'))
       \<and> ((\<forall>q. dbfb q = None) \<longrightarrow>
            (\<exists>s'. upsertDevice_base dbfb now d ub t p a \<lparr>committed = tblb, pending = None\<rparr>
                     = (Inr (d, or_null ub, t), s')))
       \<and> (\<forall>res s'. upsertDevice_base dbfb now d ub t p a \<lparr>committed = tblb, pending = None\<rparr> = (Inr res, s')
            \<longrightarrow> res = (d, or_null ub, t) \<and> pending s' = None
              \<and> (\<forall>r \<in> set (committed s'). fcm_token r = t \<longleftrightarrow> device_id r = d)
              \<and> length (filter (\<lambda>r. device_id r = d) (committed s')) = 1
              \<and> mset (filter (\<lambda>r. device_id r \<noteq> d) (committed s'))
                  = mset (filter (\<lambda>r. device_id r \<noteq> d \<and> fcm_token r \<noteq> t) tblb)
              \<and> (\<forall>r \<in> set tblb. device_id r = d \<longrightarrow>
                   (\<exists>r' \<in> set (committed s'). device_id r' = d \<and> created_at r' = created_at r)))
       \<and> (\<forall>tbl'. deleteToken dbf tok tbl = Inr tbl' \<longrightarrow> registry_inv tbl')
       \<and> (\<forall>tbl'. deleteToken dbfb tok tblb = Inr tbl' \<longrightarrow> registry_inv tbl')
       \<and> (\<forall>n tbl'. deleteDeviceByIdentifiers dbf d t ui gi tbl = Inr (n, tbl') \<longrightarrow> registry_inv tbl')"
proof -
  let ?s = "\<lparr>committed = tbl, pending = None\<rparr>"
  let ?sb = "\<lparr>committed = tblb, pending = None\<rparr>"
  have any: "registry_inv (committed s')"
    if "upsertDevice dbf now d u g t p a ?s = (r, s')" for r s'
  proof (cases r)
    case (Inl e)
    then have "s' = ?s" using that upsertDevice_Inl[of dbf now d u g t p a ?s e s'] by simp
    then show ?thesis using inv by simp
  next
    case (Inr res)
    then show ?thesis using that inv upsertDevice_success[of ?s dbf now d u g t p a res s'] by simp
  qed
  have anyb: "registry_inv (committed s')"
    if "upsertDevice_base dbfb now d ub t p a ?sb = (r, s')" for r s'
  proof (cases r)
    case (Inl e)
    then have "s' = ?sb" using that upsertDevice_base_Inl[of dbfb now d ub t p a ?sb e s'] by simp
    then show ?thesis using invb by simp
  next
    case (Inr res)
    then show ?thesis
      using that invb upsertDevice_base_success[of ?sb dbfb now d ub t p a res s'] by simp
  qed
  have ret: "(\<forall>q. dbf q = None) \<longrightarrow>
            (\<exists>s'. upsertDevice dbf now d u g t p a ?s = (Inr (d, u, t), s'))"
    using upsertDevice_returns[OF inv] by blast
  have retb: "(\<forall>q. dbfb q = None) \<longrightarrow>
            (\<exists>s'. upsertDevice_base dbfb now d ub t p a ?sb = (Inr (d, or_null ub, t), s'))"
    using upsertDevice_base_returns[OF invb] by blast
  have ok: "res = (d, u, t) \<and> pending s' = None
              \<and> (\<forall>r \<in> set (committed s'). fcm_token r = t \<longleftrightarrow> device_id r = d)
              \<and> length (filter (\<lambda>r. device_id r = d) (committed s')) = 1
              \<and> mset (filter (\<lambda>r. device_id r \<noteq> d) (committed s'))
                  = mset (filter (\<lambda>r. device_id r \<noteq> d \<and> fcm_token r \<noteq> t) tbl)
              \<and> (\<forall>r \<in> set tbl. device_id r = d \<longrightarrow>
                   (\<exists>r' \<in> set (committed s'). device_id r' = d \<and> created_at r' = created_at r))"
    if run: "upsertDevice dbf now d u g t p a ?s = (Inr res, s')" for res s'
  proof -
    note su = upsertDevice_success[of ?s dbf now d u g t p a res s']
    have 1: "res = (d, u, t)" "pending s' = None"
      "\<forall>r \<in> set (committed s'). fcm_token r = t \<longleftrightarrow> device_id r = d"
      "length (filter (\<lambda>r. device_id r = d) (committed s')) = 1"
      using su run inv by simp_all
    have "filter (\<lambda>r. device_id r \<noteq> d) (committed s')
           = filter (\<lambda>r. device_id r \<noteq> d \<and> fcm_token r \<noteq> t) tbl"
      using su run inv by simp
    then have 2: "mset (filter (\<lambda>r. device_id r \<noteq> d) (committed s'))
                  = mset (filter (\<lambda>r. device_id r \<noteq> d \<and> fcm_token r \<noteq> t) tbl)"
      by (rule arg_cong)
    have 3: "\<forall>r \<in> set tbl. device_id r = d \<longrightarrow>
                   (\<exists>r' \<in> set (committed s'). device_id r' = d \<and> created_at r' = created_at r)"
      using upsertDevice_in_place[of ?s dbf now d u g t p a res s', OF _ run] by simp
    show ?thesis by (intro conjI) (rule 1 2 3)+
  qed
  have okb: "res = (d, or_null ub, t) \<and> pending s' = None
              \<and> (\<forall>r \<in> set (committed s'). fcm_token r = t \<longleftrightarrow> device_id r = d)
              \<and> length (filter (\<lambda>r. device_id r = d) (committed s')) = 1
              \<and> mset (filter (\<lambda>r. device_id r \<noteq> d) (committed s'))
                  = mset (filter (\<lambda>r. device_id r \<noteq> d \<and> fcm_token r \<noteq> t) tblb)
              \<and> (\<forall>r \<in> set tblb. device_id r = d \<longrightarrow>
                   (\<exists>r' \<in> set (committed s'). device_id r' = d \<and> created_at r' = created_at r))"
    if run: "upsertDevice_base dbfb now d ub t p a ?sb = (Inr res, s')" for res s'
  proof -
    note su = upsertDevice_base_success[of ?sb dbfb now d ub t p a res s']
    have 1: "res = (d, or_null ub, t)" "pending s' = None"
      "\<forall>r \<in> set (committed s'). fcm_token r = t \<longleftrightarrow> device_id r = d"
      "length (filter (\<lambda>r. device_id r = d) (committed s')) = 1"
      using su run invb by simp_all
    have "filter (\<lambda>r. device_id r \<noteq> d) (committed s')
           = filter (\<lambda>r. device_id r \<noteq> d \<and> fcm_token r \<noteq> t) tblb"
      using su run invb by simp
    then have 2: "mset (filter (\<lambda>r. device_id r \<noteq> d) (committed s'))
                  = mset (filter (\<lambda>r. device_id r \<noteq> d \<and> fcm_token r \<noteq> t) tblb)"
      by (rule arg_cong)
    have 3: "\<forall>r \<in> set tblb. device_id r = d \<longrightarrow>
                   (\<exists>r' \<in> set (committed s'). device_id r' = d \<and> created_at r' = created_at r)"
      using upsertDevice_base_in_place[of ?sb dbfb now d ub t p a res s', OF _ run] by simp
    show ?thesis by (intro conjI) (rule 1 2 3)+
  qed
  have del: "registry_inv tbl'" if "deleteToken dbf tok tbl = Inr tbl'" for tbl'
    using that inv by (simp add: deleteToken_Inr registry_inv_filter)
  have delb: "registry_inv tbl'" if "deleteToken dbfb tok tblb = Inr tbl'" for tbl'
    using that invb by (simp add: deleteToken_Inr registry_inv_filter)
  have deli: "registry_inv tbl'"
    if "deleteDeviceByIdentifiers dbf d t ui gi tbl = Inr (n, tbl')" for n tbl'
    using that inv by (simp add: deleteDeviceByIdentifiers_Inr registry_inv_filter)
  have A: "\<forall>r s'. upsertDevice dbf now d u g t p a ?s = (r, s') \<longrightarrow> registry_inv (committed s')"
    using any by (intro allI impI)
  have B: "\<forall>r s'. upsertDevice_base dbfb now d ub t p a ?sb = (r, s') \<longrightarrow> registry_inv (committed s')"
    using anyb by (intro allI impI)
  have C: "\<forall>res s'. upsertDevice dbf now d u g t p a ?s = (Inr res, s')
            \<longrightarrow> res = (d, u, t) \<and> pending s' = None
              \<and> (\<forall>r \<in> set (committed s'). fcm_token r = t \<longleftrightarrow> device_id r = d)
              \<and> length (filter (\<lambda>r. device_id r = d) (committed s')) = 1
              \<and> mset (filter (\<lambda>r. device_id r \<noteq> d) (committed s'))
                  = mset (filter (\<lambda>r. device_id r \<noteq> d \<and> fcm_token r \<noteq> t) tbl)
              \<and> (\<forall>r \<in> set tbl. device_id r = d \<longrightarrow>
                   (\<exists>r' \<in> set (committed s'). device_id r' = d \<and> created_at r' = created_at r))"
    using ok by (intro allI impI)
  have D: "\<forall>res s'. upsertDevice_base dbfb now d ub t p a ?sb = (Inr res, s')
            \<longrightarrow> res = (d, or_null ub, t) \<and> pending s' = None
              \<and> (\<forall>r \<in> set (committed s'). fcm_token r = t \<longleftrightarrow> device_id r = d)
              \<and> length (filter (\<lambda>r. device_id r = d) (committed s')) = 1
              \<and> mset (filter (\<lambda>r. device_id r \<noteq> d) (committed s'))
                  = mset (filter (\<lambda>r. device_id r \<noteq> d \<and> fcm_token r \<noteq> t) tblb)
              \<and> (\<forall>r \<in> set tblb. device_id r = d \<longrightarrow>
                   (\<exists>r' \<in> set (committed s'). device_id r' = d \<and> created_at r' = created_at r))"
    using okb by (intro allI impI)
  have E: "\<forall>tbl'. deleteToken dbf tok tbl = Inr tbl' \<longrightarrow> registry_inv tbl'"
    using del by (intro allI impI)
  have F: "\<forall>tbl'. deleteToken dbfb tok tblb = Inr tbl' \<longrightarrow> registry_inv tbl'"
    using delb by (intro allI impI)
  have G: "\<forall>n tbl'. deleteDeviceByIdentifiers dbf d t ui gi tbl = Inr (n, tbl') \<longrightarrow> registry_inv tbl'"
    using deli by (intro allI impI)
  show ?thesis by (intro conjI) (rule A ret C B retb D E F G)+
qed

theorem registry_keys_stay_unique_witness:
  "registry_inv
     [\<lparr>device_id = ''d1'', user_id = Some (7::int), fcm_token = ''tok-a'', platform = None,
       app_version = None, created_at = 1, updated_at = 1, game_id = Some 3, active = True\<rparr>,
      \<lparr>device_id = ''d2'', user_id = Some 8, fcm_token = ''tok-b'', platform = None,
       app_version = None, created_at = 2, updated_at = 2, game_id = Some 3, active = True\<rparr>]
   \<and> upsertDevice (\<lambda>_. None) 5 ''d1'' (Some 7) (Some 3) ''tok-b'' None None
        \<lparr>committed =
           [\<lparr>device_id = ''d1'', user_id = Some 7, fcm_token = ''tok-a'', platform = None,
             app_version = None, created_at = 1, updated_at = 1, game_id = Some 3, active = True\<rparr>,
            \<lparr>device_id = ''d2'', user_id = Some 8, fcm_token = ''tok-b'', platform = None,
             app_version = None, created_at = 2, updated_at = 2, game_id = Some 3, active = True\<rparr>],
         pending = None\<rparr>
       = (Inr (''d1'', Some 7, ''tok-b''),
          \<lparr>committed =
             [\<lparr>device_id = ''d1'', user_id = Some 7, fcm_token = ''tok-b'', platform = None,
               app_version = None, created_at = 1, updated_at = 5, game_id = Some 3, active = True\<rparr>],
           pending = None\<rparr>)
   \<and> registry_inv
        [\<lparr>device_id = ''d1'', user_id = Some (7::int), fcm_token = ''tok-b'', platform = None,
          app_version = None, created_at = 1, updated_at = 5, game_id = Some 3, active = True\<rparr>]"
proof -
  let ?r1 = "\<lparr>device_id = ''d1'', user_id = Some (7::int), fcm_token = ''tok-a'', platform = None,
       app_version = None, created_at = 1, updated_at = 1, game_id = Some 3, active = True\<rparr>"
  let ?r2 = "\<lparr>device_id = ''d2'', user_id = Some (8::int), fcm_token = ''tok-b'', platform = None,
       app_version = None, created_at = 2, updated_at = 2, game_id = Some 3, active = True\<rparr>"
  let ?rb = "\<lparr>device_id = ''d1'', user_id = Some ''u7'', fcm_token = ''tok-a'', platform = None,
       app_version = None, created_at = 1, updated_at = 1\<rparr>"
  let ?r1' = "\<lparr>device_id = ''d1'', user_id = Some (7::int), fcm_token = ''tok-b'', platform = None,
          app_version = None, created_at = 1, updated_at = 5, game_id = Some 3, active = True\<rparr>"
  let ?s = "\<lparr>committed = [?r1, ?r2], pending = None\<rparr>"
  have h1: "registry_inv [?r1, ?r2]" by (simp add: registry_inv_def)
  have h2: "registry_inv [?rb]" by (simp add: registry_inv_def)
  note inst = registry_keys_stay_unique[OF h1 h2, where dbf="\<lambda>_. None" and now=5
            and d="''d1''" and u="Some 7" and g="Some 3" and t="''tok-b''" and p=None and a=None]
  have nf: "\<forall>q::int stmt. (\<lambda>_. None :: string option) q = None" by simp
  have "\<exists>s'. upsertDevice (\<lambda>_. None) 5 ''d1'' (Some 7) (Some 3) ''tok-b'' None None ?s
                = (Inr (''d1'', Some 7, ''tok-b''), s')"
    by (rule mp[OF conjunct1[OF conjunct2[OF inst]] nf])
  then obtain s' where
    run: "upsertDevice (\<lambda>_. None) 5 ''d1'' (Some 7) (Some 3) ''tok-b'' None None ?s
                = (Inr (''d1'', Some 7, ''tok-b''), s')"
    by (elim exE)
  have ev: "upsertDevice (\<lambda>_. None) 5 ''d1'' (Some 7) (Some 3) ''tok-b'' None None ?s
       = (Inr (''d1'', Some 7, ''tok-b''), \<lparr>committed = [?r1'], pending = None\<rparr>)"
    by (simp add: db_eval)
  have s': "s' = \<lparr>committed = [?r1'], pending = None\<rparr>" using run ev by simp
  have "\<forall>r s'. upsertDevice (\<lambda>_. None) 5 ''d1'' (Some 7) (Some 3) ''tok-b'' None None ?s = (r, s')
          \<longrightarrow> registry_inv (committed s')"
    by (rule conjunct1[OF inst])
  then have "registry_inv (committed s')" using run by (elim allE impE)
  then have "registry_inv [?r1']" unfolding s' by simp
  then show ?thesis using h1 run[unfolded s'] by (intro conjI)
qed

section \<open>Proofs: the batches of a user-targeted dispatch\<close>




















section \<open>Proofs: the pages of a broadcast\<close>

lemma page_loop_total:
  assumes nf: "\<forall>k. dbf (SelectActivePage limit (k * limit)) = None"
    and nr: "\<forall>p m ts. \<exists>r p'. send p m ts = (Inr r, p')"
  shows "\<exists>s f w'. page_loop send dbf msg limit P page (s0, f0) w = (Inr (s, f), w')"
proof (induction "P - page" arbitrary: page s0 f0 w)
  case 0
  then have "\<not> page < P" by simp
  then show ?case by (subst page_loop.simps) simp
next
  case (Suc n)
  have lt: "page < P" using Suc.hyps(2) by simp
  have n: "n = P - (page + 1)" using Suc.hyps(2) by simp
  let ?q = "Query (SelectActivePage limit (page * limit))"
  let ?tokens = "map fcm_token (take limit (drop (page * limit) (active_ordered (registry w))))"
  have look: "getAllActiveTokensPage dbf limit (page * limit) (registry w) = Inr ?tokens"
    using nf by (simp add: getAllActiveTokensPage_def)
  show ?case
  proof (cases "?tokens = []")
    case True
    from Suc.hyps(1)[OF n, of s0 f0 "emit ?q w"] obtain s f w' where
      "page_loop send dbf msg limit P (page + 1) (s0, f0) (emit ?q w) = (Inr (s, f), w')"
      by blast
    then have "page_loop send dbf msg limit P page (s0, f0) w = (Inr (s, f), w')"
      using lt look True by (subst page_loop.simps) simp
    then show ?thesis by blast
  next
    case False
    from nr obtain resp p' where snd: "send (provider w) msg ?tokens = (Inr resp, p')" by blast
    let ?w2 = "emit (Multicast msg ?tokens (Inr resp)) (emit ?q (w\<lparr>provider := p'\<rparr>))"
    from Suc.hyps(1)[OF n, of "s0 + successCount resp" "f0 + failureCount resp" ?w2]
    obtain s f w' where
      "page_loop send dbf msg limit P (page + 1)
         (s0 + successCount resp, f0 + failureCount resp) ?w2 = (Inr (s, f), w')"
      by blast
    then have "page_loop send dbf msg limit P page (s0, f0) w = (Inr (s, f), w')"
      using lt look False snd by (subst page_loop.simps) simp
    then show ?thesis by blast
  qed
qed

lemma page_loop_counted:
  assumes run: "page_loop send dbf msg limit P page (s0, f0) w = (Inr (s, f), w')"
    and wf: "\<forall>p m ts r p'. send p m ts = (Inr r, p') \<longrightarrow> successCount r + failureCount r = length ts"
  shows "\<exists>new. events w' = events w @ new
           \<and> sum_list (map counted new) = length (concat (batches new))"
  using run
proof (induction "P - page" arbitrary: page s0 f0 w)
  case 0
  then have "\<not> page < P" by simp
  then have "w' = w"
    using "0.prems" by (subst (asm) page_loop.simps) simp
  then show ?case by (intro exI[of _ "[]"]) (simp add: batches_simps)
next
  case (Suc n)
  have lt: "page < P" using Suc.hyps(2) by simp
  have n: "n = P - (page + 1)" using Suc.hyps(2) by simp
  let ?q = "Query (SelectActivePage limit (page * limit))"
  obtain tokens where look: "getAllActiveTokensPage dbf limit (page * limit) (registry w) = Inr tokens"
    using Suc.prems lt
    by (subst (asm) page_loop.simps) (auto split: sum.splits)
  show ?case
  proof (cases "tokens = []")
    case True
    let ?w1 = "emit ?q w"
    have rec: "page_loop send dbf msg limit P (page + 1) (s0, f0) ?w1 = (Inr (s, f), w')"
      using Suc.prems lt look True by (subst (asm) page_loop.simps) simp
    from Suc.hyps(1)[OF n rec] obtain new where
      new: "events w' = events ?w1 @ new"
        "sum_list (map counted new) = length (concat (batches new))"
      by blast
    let ?new = "?q # new"
    have "events w' = events w @ ?new" using new(1) by (simp add: events_emit)
    moreover have "sum_list (map counted ?new) = length (concat (batches ?new))"
      using new(2) by (simp add: batches_simps)
    ultimately show ?thesis by blast
  next
    case False
    from Suc.prems lt look False obtain resp p' where
      snd: "send (provider w) msg tokens = (Inr resp, p')"
      by (subst (asm) page_loop.simps) (auto split: prod.splits sum.splits)
    let ?w2 = "emit (Multicast msg tokens (Inr resp)) (emit ?q (w\<lparr>provider := p'\<rparr>))"
    have rec: "page_loop send dbf msg limit P (page + 1)
                 (s0 + successCount resp, f0 + failureCount resp) ?w2 = (Inr (s, f), w')"
      using Suc.prems lt look False snd
      by (subst (asm) page_loop.simps) simp
    from Suc.hyps(1)[OF n rec] obtain new where
      new: "events w' = events ?w2 @ new"
        "sum_list (map counted new) = length (concat (batches new))"
      by blast
    let ?new = "?q # Multicast msg tokens (Inr resp) # new"
    have c: "successCount resp + failureCount resp = length tokens" using wf snd by blast
    have "events w' = events w @ ?new" using new(1) by (simp add: events_emit)
    moreover have "sum_list (map counted ?new) = length (concat (batches ?new))"
      using new(2) c by (simp add: batches_simps)
    ultimately show ?thesis by blast
  qed
qed

lemma active_ordered_sorted:
  "sorted_wrt (\<lambda>a b. updated_at b < updated_at a
                  \<or> (updated_at a = updated_at b \<and> device_id a \<le> device_id b))
     (active_ordered tbl)"
proof -
  have "sorted (map (\<lambda>r. (- int (updated_at r), device_id r)) (active_ordered tbl))"
    unfolding active_ordered_def by (rule sorted_sort_key)
  then have "sorted_wrt (\<lambda>a b. (- int (updated_at a), device_id a) \<le> (- int (updated_at b), device_id b))
               (active_ordered tbl)"
    by (simp only: sorted_wrt_map)
  then show ?thesis
    by (rule sorted_wrt_mono_rel[rotated]) auto
qed

lemma active_ordered_rows: "mset (active_ordered tbl) = mset (filter active tbl)"
  by (simp add: active_ordered_def)


text \<open>
  Claim C4. A broadcast (POST /push/all with title and body) on a registry with \<open>N\<close>
  active devices, the handler being the only one to act on the registry, with a database
  and a provider that do not raise: the request is answered 200, the registry is as it
  was, and after the count the handler fetches exactly the pages at offsets 0, 20, 40,
  ..., that is \<open>\<lceil>N / 20\<rceil> = (N + 19) div 20\<close> pages. Page \<open>k\<close> is the next 20 rows of the
  active rows in the order of \<^verbatim>\<open>getAllActiveTokensPage\<close>: \<^verbatim>\<open>updated_at\<close> descending, ties
  by \<^verbatim>\<open>device_id\<close> ascending (the ordered list is sorted that way and has the active rows,
  each as often as the table has it). Each page is sent as one batch, and the
  concatenation of the pages is the list of the tokens of the ordered rows: every active
  token once. When the two counters of every provider answer add up to the size of its
  batch, \<^verbatim>\<open>sent + failed\<close> of the answer is \<open>N\<close>.
\<close>

theorem push_all_pages:
  assumes req: "ti \<noteq> []" "bo \<noteq> []"
    and N: "N = length (filter active (registry w))"
    and nf: "dbf SelectActiveCount = None" "\<forall>k. dbf (SelectActivePage 20 (k * 20)) = None"
    and nr: "\<forall>p m ts. \<exists>r p'. send p m ts = (Inr r, p')"
  shows "\<exists>resp w' new. push_all send dbf (Some ti) (Some bo) data img w = (resp, w')
     \<and> fst resp = 200
     \<and> events w' = events w @ Query SelectActiveCount # new
     \<and> registry w' = registry w
     \<and> pages_fetched new = map (\<lambda>k. (20, k * 20)) [0..<nat \<lceil>real N / 20\<rceil>]
     \<and> length (pages_fetched new) = (N + 19) div 20
     \<and> batches new = map (\<lambda>k. map fcm_token (take 20 (drop (k * 20) (active_ordered (registry w)))))
                         [0..<(N + 19) div 20]
     \<and> (\<forall>k < (N + 19) div 20.
           getAllActiveTokensPage dbf 20 (k * 20) (registry w) = Inr (batches new ! k))
     \<and> concat (batches new) = map fcm_token (active_ordered (registry w))
     \<and> mset (concat (batches new)) = mset (map fcm_token (filter active (registry w)))
     \<and> (distinct (map fcm_token (registry w)) \<longrightarrow> distinct (concat (batches new)))
     \<and> sorted_wrt (\<lambda>a b. updated_at b < updated_at a
                        \<or> (updated_at a = updated_at b \<and> device_id a \<le> device_id b))
          (active_ordered (registry w))
     \<and> mset (active_ordered (registry w)) = mset (filter active (registry w))
     \<and> (0 < N \<and> (\<forall>p m ts r p'. send p m ts = (Inr r, p')
                      \<longrightarrow> successCount r + failureCount r = length ts) \<longrightarrow>
          (\<exists>sent failed. resp = (200, [(''ok'', JBool True), (''sent'', JNum (int sent)),
                                        (''failed'', JNum (int failed))])
             \<and> sent + failed = N))"
proof -
  let ?w1 = "emit (Query SelectActiveCount) w"
  let ?msg = "\<lparr>m_notification = Some (notification_of ''imageUrl'' ti bo img),
                          m_data = data, m_android = None\<rparr>"
  let ?P = "nat \<lceil>real N / real (20::nat)\<rceil>"
  note v = push_all_valid[OF req, of send dbf data img w]
  have cnt: "getActiveTokensCount dbf (registry w) = Inr N"
    using nf(1) N by (simp add: getActiveTokensCount_def)
  have ord: "sorted_wrt (\<lambda>a b. updated_at b < updated_at a
                        \<or> (updated_at a = updated_at b \<and> device_id a \<le> device_id b))
          (active_ordered (registry w))"
    by (rule active_ordered_sorted)
  have rows: "mset (active_ordered (registry w)) = mset (filter active (registry w))"
    by (rule active_ordered_rows)
  have len: "length (active_ordered (registry w)) = N" by (simp add: active_ordered_def N)
  obtain resp w' where run: "push_all send dbf (Some ti) (Some bo) data img w = (resp, w')"
    and code: "fst resp = 200"
    and tot: "0 < N \<and> (\<forall>p m ts r p'. send p m ts = (Inr r, p')
                      \<longrightarrow> successCount r + failureCount r = length ts) \<longrightarrow>
          (\<exists>sent failed new0. resp = (200, [(''ok'', JBool True), (''sent'', JNum (int sent)),
                                        (''failed'', JNum (int failed))])
             \<and> events w' = events ?w1 @ new0
             \<and> sent + failed = length (concat (batches new0)))"
  proof (cases "N = 0")
    case True
    have r: "push_all send dbf (Some ti) (Some bo) data img w
        = ((200, [(''ok'', JBool True), (''sent'', JNum 0), (''info'', JStr ''No active users'')]), ?w1)"
      unfolding v cnt using True by (simp only: sum.case simp_thms if_True)
    show ?thesis
      by (rule that[OF r]) (use True in simp_all)
  next
    case False
    from page_loop_total[OF nf(2) nr, of ?msg ?P 0 0 0 ?w1] obtain s f w' where
      loop: "page_loop send dbf ?msg 20 ?P 0 (0, 0) ?w1 = (Inr (s, f), w')"
      by (elim exE)
    have r: "push_all send dbf (Some ti) (Some bo) data img w
              = ((200, [(''ok'', JBool True), (''sent'', JNum (int s)),
                               (''failed'', JNum (int f))]), w')"
      unfolding v cnt using False loop by (simp only: sum.case simp_thms if_False prod.case)
    have t: "0 < N \<and> (\<forall>p m ts r p'. send p m ts = (Inr r, p')
                      \<longrightarrow> successCount r + failureCount r = length ts) \<longrightarrow>
          (\<exists>sent failed new0. (200::nat, [(''ok'', JBool True), (''sent'', JNum (int s)),
                               (''failed'', JNum (int f))])
                 = (200, [(''ok'', JBool True), (''sent'', JNum (int sent)),
                                        (''failed'', JNum (int failed))])
             \<and> events w' = events ?w1 @ new0
             \<and> sent + failed = length (concat (batches new0)))"
    proof
      assume a: "0 < N \<and> (\<forall>p m ts r p'. send p m ts = (Inr r, p')
                      \<longrightarrow> successCount r + failureCount r = length ts)"
      from page_loop_Inr[OF loop] obtain new1 where
        n1: "events w' = events ?w1 @ new1" "s + f = 0 + 0 + sum_list (map counted new1)"
        by (elim exE conjE) (rule that; assumption)
      from page_loop_counted[OF loop conjunct2[OF a]] obtain new2 where
        n2: "events w' = events ?w1 @ new2"
          "sum_list (map counted new2) = length (concat (batches new2))"
        by (elim exE conjE) (rule that; assumption)
      have "new2 = new1" using n1(1) n2(1) by simp
      then have "s + f = length (concat (batches new1))" using n1(2) n2(2) by simp
      then show "\<exists>sent failed new0. (200::nat, [(''ok'', JBool True), (''sent'', JNum (int s)),
                               (''failed'', JNum (int f))])
                 = (200, [(''ok'', JBool True), (''sent'', JNum (int sent)),
                                        (''failed'', JNum (int failed))])
             \<and> events w' = events ?w1 @ new0
             \<and> sent + failed = length (concat (batches new0))"
        using n1(1) by (intro exI[of _ s] exI[of _ f] exI[of _ new1] conjI refl)
    qed
    show ?thesis
      by (rule that[OF r]) (simp, rule t)
  qed
  obtain body where resp: "resp = (200, body)" using code by (cases resp) simp
  from push_all_answered[OF req N run[unfolded resp]] obtain new where
    new: "events w' = events w @ Query SelectActiveCount # new"
      "registry w' = registry w"
      "pages_fetched new = map (\<lambda>k. (20, k * 20)) [0..<nat \<lceil>real N / 20\<rceil>]"
      "length (pages_fetched new) = (N + 19) div 20"
      "batches new = map (\<lambda>k. map fcm_token (take 20 (drop (k * 20) (active_ordered (registry w)))))
                         [0..<(N + 19) div 20]"
      "\<forall>k < (N + 19) div 20.
           getAllActiveTokensPage dbf 20 (k * 20) (registry w) = Inr (batches new ! k)"
      "concat (batches new) = map fcm_token (active_ordered (registry w))"
      "mset (concat (batches new)) = mset (map fcm_token (filter active (registry w)))"
      "distinct (map fcm_token (registry w)) \<longrightarrow> distinct (concat (batches new))"
    by (elim exE conjE) (rule that; assumption)
  have sums: "0 < N \<and> (\<forall>p m ts r p'. send p m ts = (Inr r, p')
                      \<longrightarrow> successCount r + failureCount r = length ts) \<longrightarrow>
          (\<exists>sent failed. resp = (200, [(''ok'', JBool True), (''sent'', JNum (int sent)),
                                        (''failed'', JNum (int failed))])
             \<and> sent + failed = N)"
  proof
    assume a: "0 < N \<and> (\<forall>p m ts r p'. send p m ts = (Inr r, p')
                      \<longrightarrow> successCount r + failureCount r = length ts)"
    from mp[OF tot a] obtain sent failed new0 where
      r: "resp = (200, [(''ok'', JBool True), (''sent'', JNum (int sent)),
                                        (''failed'', JNum (int failed))])"
      and e: "events w' = events ?w1 @ new0"
      and sf: "sent + failed = length (concat (batches new0))"
      by (elim exE conjE)
    have "new0 = new" using e new(1) by (simp add: events_emit)
    then have "sent + failed = length (concat (batches new))" using sf by simp
    then have "sent + failed = N" unfolding new(7) using len by simp
    then show "\<exists>sent failed. resp = (200, [(''ok'', JBool True), (''sent'', JNum (int sent)),
                                        (''failed'', JNum (int failed))])
             \<and> sent + failed = N"
      using r by (intro exI[of _ sent] exI[of _ failed] conjI)
  qed
  show ?thesis
    by (intro exI[of _ resp] exI[of _ w'] exI[of _ new] conjI)
       (rule run code new ord rows sums)+
qed


lemma active_ordered_id:
  assumes "\<forall>r \<in> set tbl. active r"
    and "sorted (map (\<lambda>r. (- int (updated_at r), device_id r)) tbl)"
  shows "active_ordered tbl = tbl"
  using assms by (simp add: active_ordered_def filter_id_conv sort_key_id_if_sorted)

lemma newest_first:
  assumes "\<And>i. updated_at (dev i) = c - i" and "n \<le> c"
  shows "sorted (map (\<lambda>r. (- int (updated_at r), device_id r)) (map dev [0..<n]))"
proof -
  have "sorted_wrt (\<lambda>i j. (- int (updated_at (dev i)), device_id (dev i))
                          \<le> (- int (updated_at (dev j)), device_id (dev j))) [0..<n]"
  proof (rule sorted_wrt_mono_rel[OF _ sorted_wrt_upt])
    fix i j assume "i \<in> set [0..<n]" "j \<in> set [0..<n]" "i < j"
    then have "c - j < c - i" using assms(2) by auto
    then have "- int (c - i) < - int (c - j)" by simp
    then show "(- int (updated_at (dev i)), device_id (dev i))
                 \<le> (- int (updated_at (dev j)), device_id (dev j))"
      unfolding assms(1) less_eq_prod_simp by (rule disjI1)
  qed
  then show ?thesis by (simp add: sorted_wrt_map)
qed

theorem push_all_pages_witness:
  "\<exists>sent failed w' new.
     push_all
       (\<lambda>p m ts. (Inr \<lparr>responses = map (\<lambda>_. \<lparr>success = True, error_code = None,
                                                  error_message = None\<rparr>) ts,
                        successCount = length ts, failureCount = 0\<rparr>, p))
       (\<lambda>_. None) (Some ''Hi'') (Some ''there'') None None
       \<lparr>registry =
          map (\<lambda>i. \<lparr>device_id = CHR ''d'' # replicate i CHR ''x'', user_id = Some (7::int),
                     fcm_token = CHR ''t'' # replicate i CHR ''x'', platform = None,
                     app_version = None, created_at = 1, updated_at = 100 - i, game_id = Some 3,
                     active = True\<rparr>) [0..<45],
        provider = (), events = []\<rparr>
     = ((200, [(''ok'', JBool True), (''sent'', JNum (int sent)), (''failed'', JNum (int failed))]),
        w')
   \<and> sent + failed = 45
   \<and> events w' = Query SelectActiveCount # new
   \<and> pages_fetched new = [(20, 0), (20, 20), (20, 40)]
   \<and> map length (batches new) = [20, 20, 5]
   \<and> concat (batches new) = map (\<lambda>i. CHR ''t'' # replicate i CHR ''x'') [0..<45]"
proof -
  let ?dev = "\<lambda>i. \<lparr>device_id = CHR ''d'' # replicate i CHR ''x'', user_id = Some (7::int),
                     fcm_token = CHR ''t'' # replicate i CHR ''x'', platform = None,
                     app_version = None, created_at = 1, updated_at = 100 - i, game_id = Some 3,
                     active = True\<rparr>"
  let ?w = "\<lparr>registry = map ?dev [0..<45], provider = (), events = ([] :: int event list)\<rparr>"
  let ?send = "\<lambda>(p::unit) (m::message) (ts::string list).
                 (Inr \<lparr>responses = map (\<lambda>_. \<lparr>success = True, error_code = None,
                                                  error_message = None\<rparr>) ts,
                        successCount = length ts, failureCount = 0\<rparr> :: string + batch_response, p)"
  have ti: "''Hi'' \<noteq> []" and bo: "''there'' \<noteq> []" by simp_all
  have act: "filter active (map ?dev [0..<45]) = map ?dev [0..<45]"
    by (simp add: filter_id_conv)
  have N: "(45::nat) = length (filter active (registry ?w))"
    unfolding world.simps act by simp
  have nf1: "(\<lambda>_::int stmt. None :: string option) SelectActiveCount = None" by simp
  have nf2: "\<forall>k. (\<lambda>_::int stmt. None :: string option) (SelectActivePage 20 (k * 20)) = None"
    by simp
  have nr: "\<forall>p m ts. \<exists>r p'. ?send p m ts = (Inr r, p')" by simp
  have wf: "\<forall>p m ts r p'. ?send p m ts = (Inr r, p') \<longrightarrow> successCount r + failureCount r = length ts"
    by auto
  have srt: "sorted (map (\<lambda>r. (- int (updated_at r), device_id r)) (map ?dev [0..<45]))"
    by (rule newest_first[where c=100]) simp_all
  have ao: "active_ordered (registry ?w) = map ?dev [0..<45]"
    unfolding world.simps by (rule active_ordered_id[OF _ srt]) simp
  have ao': "active_ordered (map ?dev [0..<45]) = map ?dev [0..<45]"
    using ao by simp
  have len: "length (active_ordered (map ?dev [0..<45])) = 45" unfolding ao' by simp
  have u3: "[0..<3] = [0, 1, 2::nat]" by code_simp
  have P3: "(45 + 19) div 20 = (3::nat)" by simp
  have C3: "nat \<lceil>real 45 / 20\<rceil> = 3" by simp
  from push_all_pages[OF ti bo N nf1 nf2 nr, of None None] obtain resp w' new where
    run: "push_all ?send (\<lambda>_. None) (Some ''Hi'') (Some ''there'') None None ?w = (resp, w')"
    and ev: "events w' = events ?w @ Query SelectActiveCount # new"
    and pf: "pages_fetched new = map (\<lambda>k. (20, k * 20)) [0..<nat \<lceil>real 45 / 20\<rceil>]"
    and bt: "batches new = map (\<lambda>k. map fcm_token (take 20 (drop (k * 20) (active_ordered (registry ?w)))))
                         [0..<(45 + 19) div 20]"
    and cc: "concat (batches new) = map fcm_token (active_ordered (registry ?w))"
    and sums: "0 < (45::nat) \<and> (\<forall>p m ts r p'. ?send p m ts = (Inr r, p')
                      \<longrightarrow> successCount r + failureCount r = length ts) \<longrightarrow>
          (\<exists>sent failed. resp = (200, [(''ok'', JBool True), (''sent'', JNum (int sent)),
                                        (''failed'', JNum (int failed))])
             \<and> sent + failed = 45)"
    by (elim exE conjE) (rule that; assumption)
  have pos: "0 < (45::nat)" by simp
  from mp[OF sums conjI[OF pos wf]] obtain sent failed where
    r: "resp = (200, [(''ok'', JBool True), (''sent'', JNum (int sent)),
                                        (''failed'', JNum (int failed))])"
    and sf: "sent + failed = 45"
    by (elim exE conjE)
  have 1: "push_all ?send (\<lambda>_. None) (Some ''Hi'') (Some ''there'') None None ?w
     = ((200, [(''ok'', JBool True), (''sent'', JNum (int sent)), (''failed'', JNum (int failed))]),
        w')"
    using run unfolding r .
  have 3: "events w' = Query SelectActiveCount # new" using ev by simp
  have 4: "pages_fetched new = [(20, 0), (20, 20), (20, 40)]"
    unfolding pf C3 u3 by simp
  have 5: "map length (batches new) = [20, 20, 5]"
    unfolding bt P3 u3 ao by simp
  have 6: "concat (batches new) = map (\<lambda>i. CHR ''t'' # replicate i CHR ''x'') [0..<45]"
    unfolding cc ao by simp
  show ?thesis
    by (intro exI[of _ sent] exI[of _ failed] exI[of _ w'] exI[of _ new] conjI)
       (rule 1 sf 3 4 5 6)+
qed

end
